theory Spec2Isabelle
  imports Main "HOL-Library.Multiset" "HOL-Library.Word"
begin

section \<open>SystemInfoProvider: the callback queue and the coalescing flag\<close>

text \<open>
  Source: \<^verbatim>\<open>chrome/browser/extensions/api/system_info/system_info_provider.h\<close>.

  A \<^verbatim>\<open>QueryInfoCompletionCallback\<close> is a \<^verbatim>\<open>base::Callback<void(bool)>\<close>.  The model
  names each callback by a number.  What a callback does to the provider when it is run
  is given by a table \<open>act\<close>: \<open>act callback success\<close> is the sequence of callbacks that
  \<open>callback\<close>, run with \<open>success\<close>, passes to \<^verbatim>\<open>StartQueryInfo\<close> of the same provider
  (the empty list for a callback that does not call back into the provider).
\<close>

type_synonym QueryInfoCompletionCallback = nat

type_synonym callback_table =
  "QueryInfoCompletionCallback \<Rightarrow> bool \<Rightarrow> QueryInfoCompletionCallback list"

text \<open>
  The two data members the UI thread mutates are \<^verbatim>\<open>callbacks_\<close> (a \<^verbatim>\<open>std::queue\<close>, front
  at the head of the list) and \<^verbatim>\<open>is_waiting_for_completion_\<close>; the fields are named
  without the trailing underscore.  The remaining fields are
  the environment and what an observer can see of a run:
  \<^item> \<open>pool_shutdown\<close>: the sequenced worker pool no longer accepts tasks;
  \<^item> \<open>in_pool\<close>: query tasks the pool has accepted and not yet replied to;
  \<^item> \<open>posted\<close>: how many times \<^verbatim>\<open>PostTaskAndReplyWithResult\<close> has been called;
  \<^item> \<open>prepared\<close>: how many times \<^verbatim>\<open>PrepareQueryOnUIThread\<close> has been called;
  \<^item> \<open>requested\<close>: the arguments of all \<^verbatim>\<open>StartQueryInfo\<close> calls so far, in call order;
  \<^item> \<open>invoked\<close>: all \<^verbatim>\<open>callback.Run(success)\<close> so far, in order, with the argument.
\<close>

record SystemInfoProvider =
  callbacks :: "QueryInfoCompletionCallback list"
  is_waiting_for_completion :: bool
  pool_shutdown :: bool
  in_pool :: nat
  posted :: nat
  prepared :: nat
  requested :: "QueryInfoCompletionCallback list"
  invoked :: "(QueryInfoCompletionCallback \<times> bool) list"

text \<open>The constructor: an empty queue and \<^verbatim>\<open>is_waiting_for_completion_(false)\<close>.\<close>

definition new_SystemInfoProvider :: SystemInfoProvider where
  "new_SystemInfoProvider =
     \<lparr>callbacks = [], is_waiting_for_completion = False, pool_shutdown = False,
      in_pool = 0, posted = 0, prepared = 0, requested = [], invoked = []\<rparr>"

text \<open>\<^verbatim>\<open>virtual void PrepareQueryOnUIThread() {}\<close>: no effect on the provider; counted.\<close>

definition PrepareQueryOnUIThread :: "SystemInfoProvider \<Rightarrow> SystemInfoProvider" where
  "PrepareQueryOnUIThread w = w\<lparr>prepared := prepared w + 1\<rparr>"

text \<open>
  Modelled from the spec: \<^verbatim>\<open>base::PostTaskAndReplyWithResult\<close> and the sequenced worker
  pool are not among the sources.  A task posted to a pool that can schedule it is held
  by the pool until the pool has run \<^verbatim>\<open>QueryInfo\<close> and the reply, \<^verbatim>\<open>OnQueryCompleted\<close>, runs
  on the UI thread; a task posted to a pool that cannot schedule it (shutdown in
  progress) is dropped, and its reply never runs.  The caller below discards the value
  the call returns.
\<close>

definition PostTaskAndReplyWithResult :: "SystemInfoProvider \<Rightarrow> SystemInfoProvider" where
  "PostTaskAndReplyWithResult w =
     (if pool_shutdown w then w\<lparr>posted := posted w + 1\<rparr>
      else w\<lparr>posted := posted w + 1, in_pool := in_pool w + 1\<rparr>)"

definition StartQueryInfoPostInitialization :: "SystemInfoProvider \<Rightarrow> SystemInfoProvider" where
  "StartQueryInfoPostInitialization w = PostTaskAndReplyWithResult (PrepareQueryOnUIThread w)"

text \<open>The base class runs the closure it is given at once.\<close>

definition InitializeProvider ::
  "(SystemInfoProvider \<Rightarrow> SystemInfoProvider) \<Rightarrow> SystemInfoProvider \<Rightarrow> SystemInfoProvider" where
  "InitializeProvider do_query_info_callback w = do_query_info_callback w"

definition StartQueryInfo ::
  "QueryInfoCompletionCallback \<Rightarrow> SystemInfoProvider \<Rightarrow> SystemInfoProvider" where
  "StartQueryInfo callback w =
     (let w1 = w\<lparr>callbacks := callbacks w @ [callback],
                 requested := requested w @ [callback]\<rparr>
      in if is_waiting_for_completion w1 then w1
         else InitializeProvider StartQueryInfoPostInitialization
                (w1\<lparr>is_waiting_for_completion := True\<rparr>))"

text \<open>
  \<^verbatim>\<open>callback.Run(success)\<close>: the invocation is recorded, then the callback makes its
  calls to \<^verbatim>\<open>StartQueryInfo\<close>, one after the other.
\<close>

definition invoke ::
  "QueryInfoCompletionCallback \<Rightarrow> bool \<Rightarrow> SystemInfoProvider \<Rightarrow> SystemInfoProvider" where
  "invoke callback success w = w\<lparr>invoked := invoked w @ [(callback, success)]\<rparr>"

definition Run ::
  "callback_table \<Rightarrow> QueryInfoCompletionCallback \<Rightarrow> bool \<Rightarrow> SystemInfoProvider
     \<Rightarrow> SystemInfoProvider" where
  "Run act callback success w =
     foldl (\<lambda>w' c. StartQueryInfo c w') (invoke callback success w) (act callback success)"

text \<open>\<^verbatim>\<open>callbacks_.pop()\<close>, called on a queue that holds at least the callback just run.\<close>

definition pop :: "SystemInfoProvider \<Rightarrow> SystemInfoProvider" where
  "pop w = w\<lparr>callbacks := tl (callbacks w)\<rparr>"

text \<open>
  One pass through the body of the loop of \<^verbatim>\<open>OnQueryCompleted\<close>:
  \<^verbatim>\<open>callback = callbacks_.front(); callback.Run(success); callbacks_.pop();\<close>
  The loop enters the body only with a non-empty queue.
\<close>

definition loop_body :: "callback_table \<Rightarrow> bool \<Rightarrow> SystemInfoProvider \<Rightarrow> SystemInfoProvider" where
  "loop_body act success w =
     (case callbacks w of
        [] \<Rightarrow> w
      | callback # _ \<Rightarrow> pop (Run act callback success w))"

text \<open>
  \<^verbatim>\<open>while (!callbacks_.empty()) { ... }\<close>.  The loop need not end: the result is \<open>None\<close>
  when it runs forever.
\<close>

partial_function (option) drain ::
  "callback_table \<Rightarrow> bool \<Rightarrow> SystemInfoProvider \<Rightarrow> SystemInfoProvider option" where
  "drain act success w =
     (if callbacks w = [] then Some w else drain act success (loop_body act success w))"

declare drain.simps [code]

definition OnQueryCompleted ::
  "callback_table \<Rightarrow> bool \<Rightarrow> SystemInfoProvider \<Rightarrow> SystemInfoProvider option" where
  "OnQueryCompleted act success w =
     (case drain act success w of
        None \<Rightarrow> None
      | Some w' \<Rightarrow> Some (w'\<lparr>is_waiting_for_completion := False\<rparr>))"


subsection \<open>Executions on the UI thread\<close>

text \<open>
  Everything above runs on the UI thread, one task at a time.  An execution is a sequence
  of steps between control points:
  \<^item> \<open>Between\<close>: no method of the provider is running;
  \<^item> \<open>Entered success\<close>: \<^verbatim>\<open>OnQueryCompleted(success)\<close> has just been entered;
  \<^item> \<open>LoopHead success\<close>: at the test of its \<^verbatim>\<open>while\<close> loop;
  \<^item> \<open>InCallback success cs\<close>: inside \<^verbatim>\<open>callback.Run(success)\<close>, where the callback
    still has the calls \<^verbatim>\<open>StartQueryInfo(c)\<close>, for \<open>c\<close> in \<open>cs\<close>, to make.

  \<^verbatim>\<open>StartQueryInfo\<close> runs no callback, so it is one step.  \<^verbatim>\<open>OnQueryCompleted\<close> is bound
  only as the reply of a posted task: it is entered only when the pool holds a task, and
  \<open>success\<close> is what \<^verbatim>\<open>QueryInfo\<close> returned on the pool.
  The pool may shut down at any time between two tasks of the UI thread; from then on
  it may drop a task it holds, whose reply then never runs.
\<close>

datatype control =
  Between
| Entered bool
| LoopHead bool
| InCallback bool "QueryInfoCompletionCallback list"

inductive step ::
  "callback_table \<Rightarrow> control \<times> SystemInfoProvider \<Rightarrow> control \<times> SystemInfoProvider \<Rightarrow> bool"
  for act :: callback_table where
  request: "step act (Between, w) (Between, StartQueryInfo c w)"
| shutdown: "step act (Between, w) (Between, w\<lparr>pool_shutdown := True\<rparr>)"
| reply: "0 < in_pool w \<Longrightarrow>
    step act (Between, w) (Entered success, w\<lparr>in_pool := in_pool w - 1\<rparr>)"
| drop: "0 < in_pool w \<Longrightarrow> pool_shutdown w \<Longrightarrow>
    step act (Between, w) (Between, w\<lparr>in_pool := in_pool w - 1\<rparr>)"
| enter: "step act (Entered success, w) (LoopHead success, w)"
| call: "callbacks w = callback # q \<Longrightarrow>
    step act (LoopHead success, w)
      (InCallback success (act callback success), invoke callback success w)"
| reenter: "step act (InCallback success (c # cs), w) (InCallback success cs, StartQueryInfo c w)"
| return: "step act (InCallback success [], w) (LoopHead success, pop w)"
| exit: "callbacks w = [] \<Longrightarrow>
    step act (LoopHead success, w) (Between, w\<lparr>is_waiting_for_completion := False\<rparr>)"

code_pred step .

definition reachable :: "callback_table \<Rightarrow> control \<times> SystemInfoProvider \<Rightarrow> bool" where
  "reachable act cfg = (step act)\<^sup>*\<^sup>* (Between, new_SystemInfoProvider) cfg"

text \<open>
  The control points at which \<^verbatim>\<open>StartQueryInfo\<close> or \<^verbatim>\<open>OnQueryCompleted\<close> is entered or
  left: between tasks, on entry of \<^verbatim>\<open>OnQueryCompleted\<close>, and inside a callback (before
  and after each of its calls to \<^verbatim>\<open>StartQueryInfo\<close>).  The loop test is inside
  \<^verbatim>\<open>OnQueryCompleted\<close>.
\<close>

fun quiescent :: "control \<Rightarrow> bool" where
  "quiescent Between = True"
| "quiescent (Entered success) = True"
| "quiescent (LoopHead success) = False"
| "quiescent (InCallback success cs) = True"

text \<open>The callbacks still owed an invocation: inside a callback, the front of the queue
  is the callback that is running.\<close>

fun pending :: "control \<Rightarrow> SystemInfoProvider \<Rightarrow> QueryInfoCompletionCallback list" where
  "pending (InCallback success cs) w = tl (callbacks w)"
| "pending p w = callbacks w"

text \<open>
  \<open>cycle act success w v\<close>: the loop of \<^verbatim>\<open>OnQueryCompleted(success)\<close>, entered in state
  \<open>w\<close>, is at its test in state \<open>v\<close>, after some number of passes.
\<close>

inductive cycle ::
  "callback_table \<Rightarrow> bool \<Rightarrow> SystemInfoProvider \<Rightarrow> SystemInfoProvider \<Rightarrow> bool"
  for act :: callback_table and success :: bool and w :: SystemInfoProvider where
  start: "cycle act success w w"
| pass: "cycle act success w v \<Longrightarrow> callbacks v \<noteq> [] \<Longrightarrow>
    cycle act success w (loop_body act success v)"

code_pred cycle .

text \<open>
  What holds of the queue, the flag and the pool at each control point of an execution.
\<close>

fun invariant :: "control \<Rightarrow> SystemInfoProvider \<Rightarrow> bool" where
  "invariant Between w =
     ((callbacks w \<noteq> []) = is_waiting_for_completion w \<and>
      in_pool w \<le> (if is_waiting_for_completion w then 1 else 0) \<and>
      (is_waiting_for_completion w \<and> \<not> pool_shutdown w \<longrightarrow> in_pool w = 1))"
| "invariant (Entered success) w =
     (callbacks w \<noteq> [] \<and> is_waiting_for_completion w \<and> in_pool w = 0)"
| "invariant (LoopHead success) w = (is_waiting_for_completion w \<and> in_pool w = 0)"
| "invariant (InCallback success cs) w =
     (callbacks w \<noteq> [] \<and> is_waiting_for_completion w \<and> in_pool w = 0)"

subsection \<open>Some callbacks\<close>

text \<open>
  Callback \<open>0\<close> of \<open>requests_two\<close> calls \<^verbatim>\<open>StartQueryInfo(1)\<close> and then
  \<^verbatim>\<open>StartQueryInfo(2)\<close>; callbacks \<open>1\<close> and \<open>2\<close> do not call the provider.  A callback of
  \<open>requests_itself\<close> calls \<^verbatim>\<open>StartQueryInfo\<close> with itself, whatever the outcome.  A
  callback of \<open>requests_none\<close> does not call the provider.
\<close>

definition requests_two :: callback_table where
  "requests_two c success = (if c = 0 then [1, 2] else [])"

definition rank_two :: "QueryInfoCompletionCallback \<Rightarrow> nat" where
  "rank_two c = (if c = 0 then 1 else 0)"

definition requests_itself :: callback_table where
  "requests_itself c success = [c]"

definition requests_none :: callback_table where
  "requests_none c success = []"

section \<open>The shared provider instance\<close>

text \<open>
  \<^verbatim>\<open>provider_\<close> is a lazily created \<^verbatim>\<open>scoped_refptr\<close>, null at first.  An instance is
  either the \<open>n\<close>-th object made by \<^verbatim>\<open>new I()\<close> inside \<^verbatim>\<open>GetInstance\<close>, or an object made
  elsewhere and handed to \<^verbatim>\<open>InitializeForTesting\<close>.
\<close>

datatype provider_instance = Constructed nat | TestDouble nat

record registry =
  provider :: "provider_instance option"
  constructions :: nat

definition empty_registry :: registry where
  "empty_registry = \<lparr>provider = None, constructions = 0\<rparr>"

text \<open>\<^verbatim>\<open>DCHECK(provider.get() != NULL)\<close>: the argument is an instance, never null.\<close>

definition InitializeForTesting :: "provider_instance \<Rightarrow> registry \<Rightarrow> registry" where
  "InitializeForTesting p r = r\<lparr>provider := Some p\<rparr>"

definition GetInstance :: "registry \<Rightarrow> provider_instance \<times> registry" where
  "GetInstance r =
     (case provider r of
        None \<Rightarrow>
          (let i = Constructed (constructions r)
           in (i, r\<lparr>provider := Some i, constructions := constructions r + 1\<rparr>))
      | Some i \<Rightarrow> (i, r))"

text \<open>\<open>n\<close> calls of \<^verbatim>\<open>GetInstance\<close> in a row: what each returned, and the registry after.\<close>

fun GetInstance_times :: "nat \<Rightarrow> registry \<Rightarrow> provider_instance list \<times> registry" where
  "GetInstance_times 0 r = ([], r)"
| "GetInstance_times (Suc n) r =
     (let (i, r1) = GetInstance r; (rest, r2) = GetInstance_times n r1 in (i # rest, r2))"

section \<open>SqliteIntegrityTest\<close>

text \<open>
  Source: \<^verbatim>\<open>chrome/browser/diagnostics/sqlite_diagnostics.cc\<close>, \<^verbatim>\<open>ExecuteImpl\<close>.

  The test reports by one call of \<^verbatim>\<open>RecordOutcome\<close>, \<^verbatim>\<open>RecordFailure\<close> or
  \<^verbatim>\<open>RecordSuccess\<close>; the model returns that call, with the value \<^verbatim>\<open>ExecuteImpl\<close> returns.
  A message is kept as its parts, a number printed by \<^verbatim>\<open>IntToString\<close> or \<^verbatim>\<open>%d\<close> as the
  number.
\<close>

datatype outcome_code =
  DIAG_SQLITE_FILE_NOT_FOUND
| DIAG_SQLITE_FILE_NOT_FOUND_OK
| DIAG_SQLITE_CANNOT_OPEN_DB
| DIAG_SQLITE_ERROR_HANDLER_CALLED
| DIAG_SQLITE_DB_LOCKED
| DIAG_SQLITE_PRAGMA_FAILED
| DIAG_SQLITE_DB_CORRUPTED

datatype TestResult = TEST_OK | TEST_FAIL_CONTINUE

datatype message_part = Str string | Num int

datatype record_call =
  RecordOutcome outcome_code "message_part list" TestResult
| RecordFailure outcome_code "message_part list"
| RecordSuccess "message_part list"

text \<open>
  \<^verbatim>\<open>ErrorRecorder\<close>.  The connection calls \<^verbatim>\<open>RecordSqliteError\<close> for every SQLite error;
  an \<open>error_report\<close> is what one such call stores: the error, and the connection's
  \<^verbatim>\<open>GetLastErrno()\<close> and \<^verbatim>\<open>GetErrorMessage()\<close> at that moment.
\<close>

record ErrorRecorder =
  has_error :: bool
  sqlite_error :: int
  last_errno :: int
  message :: string

record error_report =
  reported_error :: int
  reported_errno :: int
  reported_message :: string

definition new_ErrorRecorder :: ErrorRecorder where
  "new_ErrorRecorder = \<lparr>has_error = False, sqlite_error = 0, last_errno = 0, message = []\<rparr>"

definition RecordSqliteError :: "ErrorRecorder \<Rightarrow> error_report \<Rightarrow> ErrorRecorder" where
  "RecordSqliteError recorder r =
     recorder\<lparr>has_error := True, sqlite_error := reported_error r,
              last_errno := reported_errno r, message := reported_message r\<rparr>"

definition FormatError :: "ErrorRecorder \<Rightarrow> message_part list" where
  "FormatError recorder =
     [Str ''SQLite error: '', Num (sqlite_error recorder), Str '', Last Errno: '',
      Num (last_errno recorder), Str '': '', Str (message recorder)]"

text \<open>
  What the database at a path does when the test uses it: whether \<^verbatim>\<open>Open\<close> succeeds,
  whether the prepared statement is valid, the connection's error code, the first column
  of every row that \<^verbatim>\<open>Step()\<close> delivers, and the errors reported to the error callback
  during each of the three.
\<close>

record database =
  Open :: bool
  Open_reports :: "error_report list"
  is_valid :: bool
  GetUniqueStatement_reports :: "error_report list"
  GetErrorCode :: int
  Step_rows :: "string list"
  Step_reports :: "error_report list"

text \<open>
  What the test takes from outside this file: the path operations, the file system, the
  database at each path, and the constant \<^verbatim>\<open>SQLITE_BUSY\<close> of \<^verbatim>\<open>sqlite3.h\<close>.
\<close>

record environment =
  IsAbsolute :: "string \<Rightarrow> bool"
  GetUserDefaultProfileDir :: string
  Append :: "string \<Rightarrow> string \<Rightarrow> string"
  PathExists :: "string \<Rightarrow> bool"
  database_at :: "string \<Rightarrow> database"
  SQLITE_BUSY :: int

record SqliteIntegrityTest =
  critical :: bool
  db_path :: string

text \<open>
  \<^verbatim>\<open>while (statement.Step()) { if ("ok" != result) ++errors; }\<close> with \<^verbatim>\<open>int errors\<close>, a
  32-bit integer that wraps around.
\<close>

fun count_errors :: "string list \<Rightarrow> 32 word \<Rightarrow> 32 word" where
  "count_errors [] errors = errors"
| "count_errors (result # rest) errors =
     count_errors rest (if ''ok'' \<noteq> result then errors + 1 else errors)"

definition ExecuteImpl :: "environment \<Rightarrow> SqliteIntegrityTest \<Rightarrow> record_call \<times> bool" where
  "ExecuteImpl env t =
     (let path = (if \<not> IsAbsolute env (db_path t)
                  then Append env (GetUserDefaultProfileDir env) (db_path t)
                  else db_path t)
      in if \<not> PathExists env path then
           (if critical t then
              (RecordOutcome DIAG_SQLITE_FILE_NOT_FOUND [Str ''File not found'']
                 TEST_FAIL_CONTINUE, True)
            else
              (RecordOutcome DIAG_SQLITE_FILE_NOT_FOUND_OK
                 [Str ''File not found (but that is OK)''] TEST_OK, True))
         else
           let db = database_at env path;
               recorder = foldl RecordSqliteError new_ErrorRecorder (Open_reports db)
           in if \<not> Open db then
                (RecordFailure DIAG_SQLITE_CANNOT_OPEN_DB
                   [Str ''Cannot open DB. Possibly corrupted''], True)
              else if has_error recorder then
                (RecordFailure DIAG_SQLITE_ERROR_HANDLER_CALLED (FormatError recorder), True)
              else
                let recorder = foldl RecordSqliteError recorder (GetUniqueStatement_reports db)
                in if has_error recorder then
                     (RecordFailure DIAG_SQLITE_ERROR_HANDLER_CALLED (FormatError recorder),
                      True)
                   else if \<not> is_valid db then
                     (let error = GetErrorCode db
                      in if SQLITE_BUSY env = error then
                           (RecordFailure DIAG_SQLITE_DB_LOCKED
                              [Str ''Database locked by another process''], False)
                         else
                           (RecordFailure DIAG_SQLITE_PRAGMA_FAILED
                              [Str ''Pragma failed. Error: '', Num error], False))
                   else
                     let errors = count_errors (Step_rows db) 0;
                         recorder = foldl RecordSqliteError recorder (Step_reports db)
                     in if has_error recorder then
                          (RecordFailure DIAG_SQLITE_ERROR_HANDLER_CALLED
                             (FormatError recorder), True)
                        else if errors \<noteq> 0 then
                          (RecordFailure DIAG_SQLITE_DB_CORRUPTED
                             [Str ''Database corruption detected: '', Num (sint errors),
                              Str '' errors''], True)
                        else (RecordSuccess [Str ''No corruption detected''], True))"

subsection \<open>The outcomes of the integrity check\<close>

text \<open>
  The outcomes of \<open>CheckIntegrity(path)\<close>.  The interface names the first five, which
  \<open>named_by_interface\<close> singles out; the last two are the remaining failure codes of the
  test.
\<close>

datatype integrity_outcome =
  ok
| corrupted int
| notFound
| cannotOpen
| locked
| errorHandlerCalled
| pragmaFailed int

fun named_by_interface :: "integrity_outcome \<Rightarrow> bool" where
  "named_by_interface errorHandlerCalled = False"
| "named_by_interface (pragmaFailed e) = False"
| "named_by_interface out = True"

text \<open>Which outcome a recorded call stands for.\<close>

fun outcome_of :: "record_call \<Rightarrow> integrity_outcome option" where
  "outcome_of (RecordSuccess m) = Some ok"
| "outcome_of (RecordOutcome c m r) =
     (if c = DIAG_SQLITE_FILE_NOT_FOUND \<or> c = DIAG_SQLITE_FILE_NOT_FOUND_OK then Some notFound
      else None)"
| "outcome_of (RecordFailure c m) =
     (case c of
        DIAG_SQLITE_CANNOT_OPEN_DB \<Rightarrow> Some cannotOpen
      | DIAG_SQLITE_ERROR_HANDLER_CALLED \<Rightarrow> Some errorHandlerCalled
      | DIAG_SQLITE_DB_LOCKED \<Rightarrow> Some locked
      | DIAG_SQLITE_PRAGMA_FAILED \<Rightarrow>
          (case m of [Str s, Num e] \<Rightarrow> Some (pragmaFailed e) | _ \<Rightarrow> None)
      | DIAG_SQLITE_DB_CORRUPTED \<Rightarrow>
          (case m of [Str s, Num n, Str s'] \<Rightarrow> Some (corrupted n) | _ \<Rightarrow> None)
      | _ \<Rightarrow> None)"

text \<open>
  The classification in the words of the interface, from what the file system and the
  database do: the path the test resolves, and the number of rows of the integrity
  pragma that are not \<open>ok\<close>.
\<close>

definition resolved_path :: "environment \<Rightarrow> SqliteIntegrityTest \<Rightarrow> string" where
  "resolved_path env t =
     (if IsAbsolute env (db_path t) then db_path t
      else Append env (GetUserDefaultProfileDir env) (db_path t))"

definition bad_rows :: "database \<Rightarrow> nat" where
  "bad_rows db = length (filter (\<lambda>result. result \<noteq> ''ok'') (Step_rows db))"

definition CheckIntegrity :: "environment \<Rightarrow> SqliteIntegrityTest \<Rightarrow> integrity_outcome" where
  "CheckIntegrity env t =
     (let db = database_at env (resolved_path env t)
      in if \<not> PathExists env (resolved_path env t) then notFound
         else if \<not> Open db then cannotOpen
         else if Open_reports db \<noteq> [] \<or> GetUniqueStatement_reports db \<noteq> []
           then errorHandlerCalled
         else if \<not> is_valid db then
           (if GetErrorCode db = SQLITE_BUSY env then locked else pragmaFailed (GetErrorCode db))
         else if Step_reports db \<noteq> [] then errorHandlerCalled
         else if 0 < bad_rows db then corrupted (int (bad_rows db))
         else ok)"

subsection \<open>Some databases\<close>

text \<open>
  A database on which preparing the pragma fails with error code 1, and a database whose
  integrity check delivers two rows that are not \<open>ok\<close>; an environment in which every
  path exists and leads to the given database, and \<^verbatim>\<open>SQLITE_BUSY\<close> is 5; the test of the
  cookies database.
\<close>

definition pragma_fails :: database where
  "pragma_fails =
     \<lparr>Open = True, Open_reports = [], is_valid = False, GetUniqueStatement_reports = [],
      GetErrorCode = 1, Step_rows = [], Step_reports = []\<rparr>"

definition two_bad_rows :: database where
  "two_bad_rows =
     \<lparr>Open = True, Open_reports = [], is_valid = True, GetUniqueStatement_reports = [],
      GetErrorCode = 0,
      Step_rows = [''*** in database main ***'', ''Page 3 is never used''],
      Step_reports = []\<rparr>"

definition environment_of :: "database \<Rightarrow> environment" where
  "environment_of db =
     \<lparr>IsAbsolute = (\<lambda>path. take 1 path = ''/''), GetUserDefaultProfileDir = ''/profile'',
      Append = (\<lambda>dir name. dir @ ''/'' @ name), PathExists = (\<lambda>path. True),
      database_at = (\<lambda>path. db), SQLITE_BUSY = 5\<rparr>"

definition cookies_test :: SqliteIntegrityTest where
  "cookies_test = \<lparr>critical = True, db_path = ''Cookies''\<rparr>"

section \<open>Properties of the provider\<close>

subsection \<open>What one call does\<close>

lemma StartQueryInfo_waiting:
  "is_waiting_for_completion w \<Longrightarrow>
   StartQueryInfo c w = w\<lparr>callbacks := callbacks w @ [c], requested := requested w @ [c]\<rparr>"
  by (simp add: StartQueryInfo_def)

lemma StartQueryInfo_idle:
  "\<not> is_waiting_for_completion w \<Longrightarrow>
   StartQueryInfo c w =
     w\<lparr>callbacks := callbacks w @ [c], requested := requested w @ [c],
       is_waiting_for_completion := True, prepared := prepared w + 1,
       posted := posted w + 1,
       in_pool := (if pool_shutdown w then in_pool w else in_pool w + 1)\<rparr>"
  by (simp add: StartQueryInfo_def InitializeProvider_def StartQueryInfoPostInitialization_def
      PostTaskAndReplyWithResult_def PrepareQueryOnUIThread_def)

lemma requests_waiting:
  "is_waiting_for_completion w \<Longrightarrow>
   foldl (\<lambda>w' c. StartQueryInfo c w') w cs =
     w\<lparr>callbacks := callbacks w @ cs, requested := requested w @ cs\<rparr>"
  by (induction cs arbitrary: w) (simp_all add: StartQueryInfo_waiting)

lemma Run_waiting:
  "is_waiting_for_completion w \<Longrightarrow>
   Run act c b w =
     w\<lparr>callbacks := callbacks w @ act c b, requested := requested w @ act c b,
       invoked := invoked w @ [(c, b)]\<rparr>"
  by (simp add: Run_def invoke_def requests_waiting)

lemma loop_body_waiting:
  "is_waiting_for_completion w \<Longrightarrow> callbacks w = c # q \<Longrightarrow>
   loop_body act b w =
     w\<lparr>callbacks := q @ act c b, requested := requested w @ act c b,
       invoked := invoked w @ [(c, b)]\<rparr>"
  by (simp add: loop_body_def Run_waiting pop_def)

lemma callbacks_StartQueryInfo: "callbacks (StartQueryInfo c w) = callbacks w @ [c]"
  by (cases "is_waiting_for_completion w") (simp_all add: StartQueryInfo_waiting StartQueryInfo_idle)

lemma callbacks_requests:
  "callbacks (foldl (\<lambda>w' c. StartQueryInfo c w') w cs) = callbacks w @ cs"
  by (induction cs arbitrary: w) (simp_all add: callbacks_StartQueryInfo)

lemma callbacks_Run: "callbacks (Run act c b w) = callbacks w @ act c b"
  by (simp add: Run_def callbacks_requests invoke_def)

lemma callbacks_loop_body:
  "callbacks w = c # q \<Longrightarrow> callbacks (loop_body act b w) = q @ act c b"
  by (simp add: loop_body_def pop_def callbacks_Run)

subsection \<open>The loop\<close>

lemma drain_empty: "callbacks w = [] \<Longrightarrow> drain act b w = Some w"
  by (subst drain.simps) simp

lemma drain_nonempty:
  "callbacks w \<noteq> [] \<Longrightarrow> drain act b w = drain act b (loop_body act b w)"
  by (subst drain.simps) simp

text \<open>An invariant of the loop body holds when the loop ends, and then the queue is empty.\<close>

lemma drain_rule:
  assumes res: "drain act b w = Some w'" and init: "P w"
    and step: "\<And>v. P v \<Longrightarrow> callbacks v \<noteq> [] \<Longrightarrow> P (loop_body act b v)"
  shows "P w' \<and> callbacks w' = []"
proof -
  let ?Q = "\<lambda>a s x y. a = act \<longrightarrow> s = b \<longrightarrow> P x \<longrightarrow> P y \<and> callbacks y = []"
  have "?Q act b w w'"
  proof (rule drain.raw_induct[where P = ?Q, OF _ res])
    fix d a s x y
    assume IH: "\<And>a s x y. d a s x = Some y \<Longrightarrow> ?Q a s x y"
      and run: "(if callbacks x = [] then Some x else d a s (loop_body a s x)) = Some y"
    show "?Q a s x y"
    proof (cases "callbacks x = []")
      case True
      with run show ?thesis by simp
    next
      case False
      with run have "d a s (loop_body a s x) = Some y" by simp
      from IH[OF this] step False show ?thesis by blast
    qed
  qed
  with init show ?thesis by blast
qed

text \<open>
  The loop ends when the callbacks that can get into the queue are ranked so that a
  callback only requests callbacks of a smaller rank: the multiset of the ranks in the
  queue gets smaller with every pass.
\<close>

lemma drain_ends:
  fixes rank :: "QueryInfoCompletionCallback \<Rightarrow> nat"
  assumes closed: "\<And>c c'. c \<in> S \<Longrightarrow> c' \<in> set (act c b) \<Longrightarrow> c' \<in> S \<and> rank c' < rank c"
  shows "set (callbacks w) \<subseteq> S \<Longrightarrow> \<exists>w'. drain act b w = Some w'"
proof -
  let ?r = "inv_image (mult1 {(x::nat, y). x < y}) (\<lambda>w. mset (map rank (callbacks w)))"
  have "wf ?r"
    by (intro wf_inv_image wf_mult1) (rule wf_less)
  then show "set (callbacks w) \<subseteq> S \<Longrightarrow> \<exists>w'. drain act b w = Some w'"
  proof (induction w rule: wf_induct_rule)
    case (less w)
    show ?case
    proof (cases "callbacks w")
      case Nil
      then show ?thesis by (simp add: drain_empty)
    next
      case (Cons c q)
      with less.prems have c: "c \<in> S" and q: "set q \<subseteq> S" by simp_all
      have "(mset (map rank (q @ act c b)), mset (map rank (c # q))) \<in> mult1 {(x, y). x < y}"
        by (rule mult1I[where a = "rank c" and ?M0.0 = "mset (map rank q)"
              and K = "mset (map rank (act c b))"]) (use closed[OF c] in auto)
      with Cons have smaller: "(loop_body act b w, w) \<in> ?r"
        by (simp add: callbacks_loop_body)
      from q closed[OF c] Cons have "set (callbacks (loop_body act b w)) \<subseteq> S"
        by (auto simp: callbacks_loop_body)
      from less.IH[OF smaller this] Cons show ?thesis
        by (simp add: drain_nonempty)
    qed
  qed
qed

lemma drain_result_empty: "drain act b w = Some w' \<Longrightarrow> callbacks w' = []"
  using drain_rule[where P = "\<lambda>_. True"] by blast

subsection \<open>Passes of the loop\<close>

text \<open>The first k passes, for k callbacks of the queue.\<close>

lemma passes:
  "is_waiting_for_completion w \<Longrightarrow> k \<le> length (callbacks w) \<Longrightarrow>
   (loop_body act b ^^ k) w =
     w\<lparr>callbacks := drop k (callbacks w) @ concat (map (\<lambda>c. act c b) (take k (callbacks w))),
       requested := requested w @ concat (map (\<lambda>c. act c b) (take k (callbacks w))),
       invoked := invoked w @ map (\<lambda>c. (c, b)) (take k (callbacks w))\<rparr>"
proof (induction k arbitrary: w)
  case 0
  then show ?case by simp
next
  case (Suc k)
  then obtain c q where cq: "callbacks w = c # q" by (cases "callbacks w") auto
  let ?v = "loop_body act b w"
  have v: "?v = w\<lparr>callbacks := q @ act c b, requested := requested w @ act c b,
       invoked := invoked w @ [(c, b)]\<rparr>"
    using Suc.prems(1) cq by (rule loop_body_waiting)
  from Suc.prems cq have "is_waiting_for_completion ?v" "k \<le> length (callbacks ?v)"
    by (simp_all add: v)
  from Suc.IH[OF this] have "(loop_body act b ^^ k) ?v =
     ?v\<lparr>callbacks := drop k (callbacks ?v) @ concat (map (\<lambda>c. act c b) (take k (callbacks ?v))),
       requested := requested ?v @ concat (map (\<lambda>c. act c b) (take k (callbacks ?v))),
       invoked := invoked ?v @ map (\<lambda>c. (c, b)) (take k (callbacks ?v))\<rparr>" .
  moreover from Suc.prems cq have "k \<le> length q" by simp
  ultimately show ?case
    by (simp add: funpow_swap1 v cq)
qed

lemma drain_passes:
  "is_waiting_for_completion w \<Longrightarrow> k \<le> length (callbacks w) \<Longrightarrow>
   drain act b w = drain act b ((loop_body act b ^^ k) w)"
proof (induction k)
  case 0
  then show ?case by simp
next
  case (Suc k)
  then have "callbacks ((loop_body act b ^^ k) w) \<noteq> []"
    by (simp add: passes)
  then have "drain act b ((loop_body act b ^^ k) w) = drain act b ((loop_body act b ^^ Suc k) w)"
    by (simp add: drain_nonempty)
  with Suc show ?case by simp
qed

lemma cycle_passes:
  "is_waiting_for_completion w \<Longrightarrow> k \<le> length (callbacks w) \<Longrightarrow>
   cycle act b w ((loop_body act b ^^ k) w)"
proof (induction k)
  case 0
  show ?case by (simp add: cycle.start)
next
  case (Suc k)
  then have "callbacks ((loop_body act b ^^ k) w) \<noteq> []"
    by (simp add: passes)
  with Suc show ?case by (simp add: cycle.pass)
qed

lemma cycle_drain: "cycle act b w v \<Longrightarrow> drain act b w = drain act b v"
  by (induction rule: cycle.induct) (simp_all add: drain_nonempty)

lemma drain_cycle: "drain act b w = Some w' \<Longrightarrow> cycle act b w w'"
  using drain_rule[where P = "cycle act b w"] by (blast intro: cycle.intros)

text \<open>When no queued callback calls the provider, the loop ends after one pass for each.\<close>

lemma OnQueryCompleted_plain:
  assumes flag: "is_waiting_for_completion w"
    and none: "\<forall>c\<in>set (callbacks w). act c b = []"
  shows "OnQueryCompleted act b w =
     Some (w\<lparr>callbacks := [], is_waiting_for_completion := False,
             invoked := invoked w @ map (\<lambda>c. (c, b)) (callbacks w)\<rparr>)"
proof -
  let ?v = "(loop_body act b ^^ length (callbacks w)) w"
  from none have "concat (map (\<lambda>c. act c b) (callbacks w)) = []"
    by simp
  with passes[OF flag order_refl, of act b]
  have v: "?v = w\<lparr>callbacks := [], invoked := invoked w @ map (\<lambda>c. (c, b)) (callbacks w)\<rparr>"
    by simp
  have "drain act b w = drain act b ?v"
    by (rule drain_passes[OF flag order_refl])
  also have "\<dots> = Some ?v"
    by (rule drain_empty) (simp add: v)
  finally show ?thesis
    by (simp add: OnQueryCompleted_def v)
qed

text \<open>What a cycle that starts with the flag set can change.\<close>

lemma cycle_waiting:
  assumes "cycle act b w v" and "is_waiting_for_completion w"
  shows "is_waiting_for_completion v \<and> posted v = posted w \<and> prepared v = prepared w \<and>
         in_pool v = in_pool w \<and> pool_shutdown v = pool_shutdown w \<and>
         (\<exists>cs new. invoked v = invoked w @ map (\<lambda>c. (c, b)) cs \<and>
               requested v = requested w @ new \<and>
               callbacks w @ new = cs @ callbacks v)"
  using assms
proof (induction rule: cycle.induct)
  case start
  then show ?case by simp
next
  case (pass v)
  then obtain c q where cq: "callbacks v = c # q" by (cases "callbacks v") auto
  from pass have flag: "is_waiting_for_completion v" by simp
  from pass obtain cs new where cs: "invoked v = invoked w @ map (\<lambda>c. (c, b)) cs"
    "requested v = requested w @ new" "callbacks w @ new = cs @ callbacks v"
    by blast
  let ?v = "loop_body act b v"
  have "invoked ?v = invoked w @ map (\<lambda>c. (c, b)) (cs @ [c])"
    "requested ?v = requested w @ (new @ act c b)"
    "callbacks w @ (new @ act c b) = (cs @ [c]) @ callbacks ?v"
    using cs cq by (simp_all add: loop_body_waiting[OF flag cq])
  then have "\<exists>cs new. invoked ?v = invoked w @ map (\<lambda>c. (c, b)) cs \<and>
               requested ?v = requested w @ new \<and>
               callbacks w @ new = cs @ callbacks ?v"
    by blast
  with pass flag cq show ?case
    by (simp add: loop_body_waiting[OF flag cq])
qed

lemma cycle_trans: "cycle act b v u \<Longrightarrow> cycle act b w v \<Longrightarrow> cycle act b w u"
  by (induction rule: cycle.induct) (simp_all add: cycle.pass)


subsection \<open>Executions\<close>

lemma reachable_start: "reachable act (Between, new_SystemInfoProvider)"
  by (simp add: reachable_def)

lemma reachable_step: "reachable act cfg \<Longrightarrow> step act cfg cfg' \<Longrightarrow> reachable act cfg'"
  by (simp add: reachable_def)

lemma step_invariant:
  assumes "step act (p, w) (p', w')" and "invariant p w"
  shows "invariant p' w'"
  using assms
proof (cases rule: step.cases)
  case (request c)
  with assms(2) show ?thesis
    by (cases "is_waiting_for_completion w")
      (simp_all add: StartQueryInfo_waiting StartQueryInfo_idle)
qed (auto simp: invoke_def StartQueryInfo_waiting pop_def)

lemma step_pending:
  assumes "step act (p, w) (p', w')" and "invariant p w"
    and "requested w = map fst (invoked w) @ pending p w"
  shows "requested w' = map fst (invoked w') @ pending p' w'"
  using assms
proof (cases rule: step.cases)
  case (request c)
  with assms(2,3) show ?thesis
    by (cases "is_waiting_for_completion w")
      (simp_all add: StartQueryInfo_waiting StartQueryInfo_idle)
qed (auto simp: invoke_def StartQueryInfo_waiting pop_def)

lemma reachable_invariant:
  assumes "reachable act (p, w)"
  shows "invariant p w \<and> requested w = map fst (invoked w) @ pending p w"
  using assms unfolding reachable_def
proof (induction rule: rtranclp_induct2)
  case refl
  show ?case by (simp add: new_SystemInfoProvider_def)
next
  case (step p w p' w')
  then show ?case using step_invariant step_pending by blast
qed

text \<open>A run of the method is an execution of the steps.\<close>

lemma requests_steps:
  "(step act)\<^sup>*\<^sup>* (InCallback b cs, w)
     (InCallback b [], foldl (\<lambda>w' c. StartQueryInfo c w') w cs)"
proof (induction cs arbitrary: w)
  case Nil
  show ?case by simp
next
  case (Cons c cs)
  have "step act (InCallback b (c # cs), w) (InCallback b cs, StartQueryInfo c w)"
    by (rule step.reenter)
  with Cons[of "StartQueryInfo c w"] show ?case
    by (simp add: converse_rtranclp_into_rtranclp)
qed

lemma loop_body_steps:
  assumes "callbacks w \<noteq> []"
  shows "(step act)\<^sup>*\<^sup>* (LoopHead b, w) (LoopHead b, loop_body act b w)"
proof -
  from assms obtain c q where cq: "callbacks w = c # q" by (cases "callbacks w") auto
  have "step act (LoopHead b, w) (InCallback b (act c b), invoke c b w)"
    using cq by (rule step.call)
  moreover have "(step act)\<^sup>*\<^sup>* (InCallback b (act c b), invoke c b w)
      (InCallback b [], Run act c b w)"
    unfolding Run_def by (rule requests_steps)
  moreover have "step act (InCallback b [], Run act c b w) (LoopHead b, pop (Run act c b w))"
    by (rule step.return)
  ultimately show ?thesis
    by (simp add: loop_body_def cq converse_rtranclp_into_rtranclp rtranclp.rtrancl_into_rtrancl)
qed

lemma cycle_steps:
  "cycle act b w v \<Longrightarrow> (step act)\<^sup>*\<^sup>* (Entered b, w) (LoopHead b, v)"
proof (induction rule: cycle.induct)
  case start
  show ?case by (simp add: step.enter r_into_rtranclp)
next
  case (pass v)
  with loop_body_steps[of v act b] show ?case by simp
qed

lemma OnQueryCompleted_steps:
  assumes "OnQueryCompleted act b w = Some w'"
  shows "(step act)\<^sup>*\<^sup>* (Entered b, w) (Between, w')"
proof -
  from assms obtain v where v: "drain act b w = Some v"
    and w': "w' = v\<lparr>is_waiting_for_completion := False\<rparr>"
    by (auto simp: OnQueryCompleted_def split: option.splits)
  from v have "cycle act b w v" "callbacks v = []"
    by (simp_all add: drain_cycle drain_result_empty)
  then have "(step act)\<^sup>*\<^sup>* (Entered b, w) (LoopHead b, v)" "step act (LoopHead b, v) (Between, w')"
    unfolding w' by (simp_all add: cycle_steps step.exit)
  then show ?thesis by simp
qed

lemma reachable_cycle:
  "reachable act (Entered b, w) \<Longrightarrow> cycle act b w v \<Longrightarrow> reachable act (LoopHead b, v)"
  unfolding reachable_def using cycle_steps by (meson rtranclp_trans)

lemma reachable_requests:
  "reachable act (Between, w) \<Longrightarrow>
   reachable act (Between, foldl (\<lambda>w' x. StartQueryInfo x w') w xs)"
proof (induction xs arbitrary: w)
  case Nil
  then show ?case by simp
next
  case (Cons x xs)
  from Cons.prems have "reachable act (Between, StartQueryInfo x w)"
    by (rule reachable_step) (rule step.request)
  from Cons.IH[OF this] show ?case by simp
qed

lemma reachable_OnQueryCompleted:
  "reachable act (Entered b, w) \<Longrightarrow> OnQueryCompleted act b w = Some w' \<Longrightarrow>
   reachable act (Between, w')"
  unfolding reachable_def using OnQueryCompleted_steps by (meson rtranclp_trans)

lemma passes_invoked:
  assumes flag: "is_waiting_for_completion w" and queue: "callbacks w = cs @ rest"
  shows "cycle act b w ((loop_body act b ^^ length cs) w) \<and>
         is_waiting_for_completion ((loop_body act b ^^ length cs) w) \<and>
         posted ((loop_body act b ^^ length cs) w) = posted w \<and>
         in_pool ((loop_body act b ^^ length cs) w) = in_pool w \<and>
         invoked ((loop_body act b ^^ length cs) w) = invoked w @ map (\<lambda>c. (c, b)) cs \<and>
         callbacks ((loop_body act b ^^ length cs) w) = rest @ concat (map (\<lambda>c. act c b) cs)"
proof -
  have k: "length cs \<le> length (callbacks w)" by (simp add: queue)
  show ?thesis
    using cycle_passes[OF flag k, of act b] flag
    by (simp add: passes[OF flag k] queue)
qed

text \<open>With the flag set, no task in the pool and the pool shut down, nothing moves.\<close>

lemma dropped_stuck:
  assumes "(step act)\<^sup>*\<^sup>* (Between, u) (p, v)"
    and "is_waiting_for_completion u" and "in_pool u = 0" and "pool_shutdown u"
  shows "p = Between \<and> is_waiting_for_completion v \<and> in_pool v = 0 \<and> pool_shutdown v \<and>
         invoked v = invoked u \<and> posted v = posted u \<and>
         (\<exists>cs. callbacks v = callbacks u @ cs)"
  using assms(1)
proof (induction rule: rtranclp_induct2)
  case refl
  from assms(2-4) show ?case by simp
next
  case (step p v p' v')
  then have p: "p = Between" and v: "is_waiting_for_completion v" "in_pool v = 0"
    "pool_shutdown v" "invoked v = invoked u" "posted v = posted u"
    and "\<exists>cs. callbacks v = callbacks u @ cs"
    by simp_all
  then obtain cs where cs: "callbacks v = callbacks u @ cs" by blast
  from step(2) show ?case
    unfolding p
  proof (cases rule: step.cases)
    case (request c)
    have "callbacks v' = callbacks u @ (cs @ [c])"
      by (simp add: request StartQueryInfo_waiting[OF v(1)] cs)
    then have "\<exists>cs. callbacks v' = callbacks u @ cs" ..
    with v show ?thesis
      by (simp add: request StartQueryInfo_waiting[OF v(1)])
  next
    case shutdown
    with v cs show ?thesis by simp
  next
    case (reply success)
    with v show ?thesis by simp
  next
    case drop
    with v show ?thesis by simp
  qed
qed

subsection \<open>Some executions\<close>

lemmas evaluate =
  loop_body_def Run_def invoke_def pop_def StartQueryInfo_def InitializeProvider_def
  StartQueryInfoPostInitialization_def PostTaskAndReplyWithResult_def
  PrepareQueryOnUIThread_def new_SystemInfoProvider_def

lemma reachable_first_reply:
  "reachable act (Entered b, (StartQueryInfo c new_SystemInfoProvider)\<lparr>in_pool := 0\<rparr>)"
proof -
  have "reachable act (Between, StartQueryInfo c new_SystemInfoProvider)"
    by (rule reachable_step[OF reachable_start step.request])
  moreover have "0 < in_pool (StartQueryInfo c new_SystemInfoProvider)"
    "in_pool (StartQueryInfo c new_SystemInfoProvider) - 1 = 0"
    by (simp_all add: StartQueryInfo_idle new_SystemInfoProvider_def)
  ultimately show ?thesis
    using reachable_step[OF _ step.reply[of "StartQueryInfo c new_SystemInfoProvider" act b]]
    by simp
qed

lemma reachable_first_loop:
  "reachable act (LoopHead b, (StartQueryInfo c new_SystemInfoProvider)\<lparr>in_pool := 0\<rparr>)"
  by (rule reachable_step[OF reachable_first_reply step.enter])

lemma reachable_shutdown:
  "reachable act (Between, new_SystemInfoProvider\<lparr>pool_shutdown := True\<rparr>)"
  by (rule reachable_step[OF reachable_start step.shutdown])

lemma OnQueryCompleted_requests_two:
  "OnQueryCompleted requests_two b ((StartQueryInfo 0 new_SystemInfoProvider)\<lparr>in_pool := 0\<rparr>) =
     Some \<lparr>callbacks = [], is_waiting_for_completion = False, pool_shutdown = False,
           in_pool = 0, posted = 1, prepared = 1, requested = [0, 1, 2],
           invoked = [(0, b), (1, b), (2, b)]\<rparr>"
  by (simp add: OnQueryCompleted_def drain_nonempty drain_empty evaluate requests_two_def)

section \<open>Properties of the registry and of the integrity test\<close>

lemma GetInstance_set: "provider r = Some i \<Longrightarrow> GetInstance r = (i, r)"
  by (simp add: GetInstance_def)

lemma GetInstance_times_set:
  "provider r = Some i \<Longrightarrow> GetInstance_times n r = (replicate n i, r)"
  by (induction n) (simp_all add: GetInstance_set)

lemma GetInstance_times_empty:
  "GetInstance_times (Suc n) empty_registry =
     (replicate (Suc n) (Constructed 0), \<lparr>provider = Some (Constructed 0), constructions = 1\<rparr>)"
  by (simp add: GetInstance_def empty_registry_def GetInstance_times_set Let_def)


lemma has_error_reports:
  "has_error (foldl RecordSqliteError recorder rs) = (has_error recorder \<or> rs \<noteq> [])"
  by (induction rs arbitrary: recorder) (auto simp: RecordSqliteError_def)

lemma count_errors_eq:
  "count_errors rows errors = errors + of_nat (length (filter (\<lambda>result. result \<noteq> ''ok'') rows))"
  by (induction rows arbitrary: errors) auto

lemma word32_of_nat_zero: "n < 2 ^ 31 \<Longrightarrow> ((of_nat n :: 32 word) = 0) = (n = 0)"
proof (cases "n = 0")
  case True
  then show ?thesis by simp
next
  case False
  assume "n < 2 ^ 31"
  then have "n < 2 ^ LENGTH(32)" by simp
  with False have "(of_nat n :: 32 word) \<noteq> 0" by (intro of_nat_neq_0) simp_all
  with False show ?thesis by simp
qed

lemma word32_sint: "n < 2 ^ 31 \<Longrightarrow> sint (of_nat n :: 32 word) = int n"
proof -
  assume n: "n < 2 ^ 31"
  then have "int n < 2 ^ 31" by (metis of_nat_less_numeral_power_cancel_iff)
  then have "signed_take_bit 31 (int n) = int n"
    by (intro signed_take_bit_int_eq_self) simp_all
  then show ?thesis by (simp add: signed_of_nat)
qed

section \<open>The claims\<close>

text \<open>
  C1, amended.  Coalescing, when the pool accepts the task.  In every execution, from a
  state between tasks with the flag clear and the pool not shut down, \<open>N \<ge> 1\<close> calls
  of \<^verbatim>\<open>StartQueryInfo\<close> made before the query completes post the query task exactly once
  (the first call; every call made while \<^verbatim>\<open>is_waiting_for_completion_\<close> is true only
  enqueues its callback) and the pool holds exactly one task.  The reply of that one
  task enters \<^verbatim>\<open>OnQueryCompleted(success)\<close>, whose loop invokes the \<open>N\<close> callbacks, in
  order, each with the outcome \<open>success\<close> of that one execution, with nothing posted
  again and no task left in the pool; when \<^verbatim>\<open>OnQueryCompleted\<close> returns, the \<open>N\<close>
  callbacks have been invoked with \<open>success\<close>, and it does return when none of them
  calls the provider.
\<close>

theorem StartQueryInfo_coalesces:
  assumes "reachable act (Between, w)" and "\<not> is_waiting_for_completion w"
    and "\<not> pool_shutdown w"
  shows "let w1 = foldl (\<lambda>w' x. StartQueryInfo x w') w (c # cs);
             e = w1\<lparr>in_pool := 0\<rparr>;
             v = (loop_body act success ^^ length (c # cs)) e
         in reachable act (Between, w1) \<and> callbacks w1 = c # cs \<and>
            is_waiting_for_completion w1 \<and> posted w1 = posted w + 1 \<and> in_pool w1 = 1 \<and>
            (\<forall>x u. is_waiting_for_completion u \<longrightarrow>
               StartQueryInfo x u =
                 u\<lparr>callbacks := callbacks u @ [x], requested := requested u @ [x]\<rparr>) \<and>
            reachable act (Entered success, e) \<and> reachable act (LoopHead success, v) \<and>
            invoked v = invoked w @ map (\<lambda>x. (x, success)) (c # cs) \<and>
            posted v = posted w + 1 \<and> in_pool v = 0 \<and>
            (\<forall>w'. OnQueryCompleted act success e = Some w' \<longrightarrow>
               reachable act (Between, w') \<and> posted w' = posted w + 1 \<and> in_pool w' = 0 \<and>
               (\<exists>rest. invoked w' = invoked w @ map (\<lambda>x. (x, success)) (c # cs @ rest))) \<and>
            ((\<forall>x\<in>set (c # cs). act x success = []) \<longrightarrow>
               OnQueryCompleted act success e =
                 Some (e\<lparr>callbacks := [], is_waiting_for_completion := False,
                         invoked := invoked w @ map (\<lambda>x. (x, success)) (c # cs)\<rparr>))"
proof -
  define w1 where "w1 = foldl (\<lambda>w' x. StartQueryInfo x w') w (c # cs)"
  define e where "e = w1\<lparr>in_pool := 0\<rparr>"
  define v where "v = (loop_body act success ^^ length (c # cs)) e"
  from reachable_invariant[OF assms(1)] assms(2)
  have idle: "callbacks w = []" "in_pool w = 0" by simp_all
  have first: "is_waiting_for_completion (StartQueryInfo c w)"
    using assms(2) by (simp add: StartQueryInfo_idle)
  have w1: "w1 = (StartQueryInfo c w)\<lparr>callbacks := callbacks (StartQueryInfo c w) @ cs,
      requested := requested (StartQueryInfo c w) @ cs\<rparr>"
    unfolding w1_def using requests_waiting[OF first] by simp
  have queue: "callbacks w1 = c # cs" and flag: "is_waiting_for_completion w1"
    and posted: "posted w1 = posted w + 1" and pool: "in_pool w1 = 1"
    and log: "invoked w1 = invoked w"
    using assms(2,3) idle by (simp_all add: w1 StartQueryInfo_idle)
  have r1: "reachable act (Between, w1)"
    unfolding w1_def using assms(1) by (rule reachable_requests)
  have "step act (Between, w1) (Entered success, w1\<lparr>in_pool := in_pool w1 - 1\<rparr>)"
    by (rule step.reply) (simp add: pool)
  then have re: "reachable act (Entered success, e)"
    using r1 by (simp add: e_def pool reachable_step)
  have eq: "callbacks e = c # cs" and ef: "is_waiting_for_completion e"
    and ep: "posted e = posted w + 1" "in_pool e = 0" and el: "invoked e = invoked w"
    by (simp_all add: e_def queue flag posted log)
  have k: "length (c # cs) \<le> length (callbacks e)"
    by (simp add: eq)
  have v: "v = e\<lparr>callbacks := concat (map (\<lambda>c. act c success) (c # cs)),
      requested := requested e @ concat (map (\<lambda>c. act c success) (c # cs)),
      invoked := invoked w @ map (\<lambda>c. (c, success)) (c # cs)\<rparr>"
    unfolding v_def using passes[OF ef k, of act success] by (simp add: eq el)
  have "cycle act success e v"
    unfolding v_def by (rule cycle_passes[OF ef k])
  with re have rv: "reachable act (LoopHead success, v)"
    by (rule reachable_cycle)
  have ended: "reachable act (Between, w') \<and> posted w' = posted w + 1 \<and> in_pool w' = 0 \<and>
      (\<exists>rest. invoked w' = invoked w @ map (\<lambda>x. (x, success)) (c # cs @ rest))"
    if run: "OnQueryCompleted act success e = Some w'" for w'
  proof -
    from run obtain u where u: "drain act success e = Some u"
      and w': "w' = u\<lparr>is_waiting_for_completion := False\<rparr>"
      by (auto simp: OnQueryCompleted_def split: option.splits)
    from u have "cycle act success e u" "callbacks u = []"
      by (simp_all add: drain_cycle drain_result_empty)
    with cycle_waiting[OF _ ef, of act success u] obtain xs new where
      "posted u = posted e" "in_pool u = in_pool e"
      "invoked u = invoked e @ map (\<lambda>c. (c, success)) xs" "callbacks e @ new = xs"
      by auto
    then have "posted w' = posted w + 1" "in_pool w' = 0"
      "invoked w' = invoked w @ map (\<lambda>x. (x, success)) (c # cs @ new)"
      by (auto simp: w' ep el eq)
    with reachable_OnQueryCompleted[OF re run] show ?thesis by blast
  qed
  have plain: "OnQueryCompleted act success e =
      Some (e\<lparr>callbacks := [], is_waiting_for_completion := False,
              invoked := invoked w @ map (\<lambda>x. (x, success)) (c # cs)\<rparr>)"
    if none: "\<forall>x\<in>set (c # cs). act x success = []"
  proof -
    from none have "concat (map (\<lambda>c. act c success) (c # cs)) = []"
      by simp
    then have v': "v = e\<lparr>callbacks := [],
        invoked := invoked w @ map (\<lambda>c. (c, success)) (c # cs)\<rparr>"
      by (simp add: v)
    have "drain act success e = drain act success v"
      unfolding v_def by (rule drain_passes[OF ef k])
    also have "\<dots> = Some v"
      by (rule drain_empty) (simp add: v')
    finally show ?thesis
      by (simp add: OnQueryCompleted_def v')
  qed
  have "invoked v = invoked w @ map (\<lambda>x. (x, success)) (c # cs)"
    "posted v = posted w + 1" "in_pool v = 0"
    by (simp_all add: v ep)
  with r1 queue flag posted pool re rv ended plain StartQueryInfo_waiting
  show ?thesis
    unfolding Let_def w1_def[symmetric] e_def[symmetric] v_def[symmetric] by blast
qed

theorem StartQueryInfo_coalesces_witness:
  "posted (foldl (\<lambda>w' x. StartQueryInfo x w') new_SystemInfoProvider [0, 1, 2]) = 1 \<and>
   in_pool (foldl (\<lambda>w' x. StartQueryInfo x w') new_SystemInfoProvider [0, 1, 2]) = 1 \<and>
   reachable requests_none (Entered False,
     (foldl (\<lambda>w' x. StartQueryInfo x w') new_SystemInfoProvider [0, 1, 2])\<lparr>in_pool := 0\<rparr>) \<and>
   OnQueryCompleted requests_none False
     ((foldl (\<lambda>w' x. StartQueryInfo x w') new_SystemInfoProvider [0, 1, 2])\<lparr>in_pool := 0\<rparr>) =
     Some \<lparr>callbacks = [], is_waiting_for_completion = False, pool_shutdown = False,
           in_pool = 0, posted = 1, prepared = 1, requested = [0, 1, 2],
           invoked = [(0, False), (1, False), (2, False)]\<rparr>"
proof -
  have "\<not> is_waiting_for_completion new_SystemInfoProvider"
    "\<not> pool_shutdown new_SystemInfoProvider"
    by (simp_all add: new_SystemInfoProvider_def)
  from StartQueryInfo_coalesces[OF reachable_start[of requests_none] this,
      where c = 0 and cs = "[1, 2]" and success = False]
  show ?thesis
    unfolding Let_def by (simp add: evaluate requests_none_def)
qed

text \<open>
  C1 as stated fails: when the pool has shut down, three calls of \<^verbatim>\<open>StartQueryInfo\<close>
  post the query task once, but the pool holds no task to execute, and in no execution
  from there does a method run or a callback receive an outcome.
\<close>

theorem coalesced_never_executed_counterexample:
  "reachable requests_none (Between,
     foldl (\<lambda>w' x. StartQueryInfo x w') (new_SystemInfoProvider\<lparr>pool_shutdown := True\<rparr>) [0, 1, 2]) \<and>
   requested (foldl (\<lambda>w' x. StartQueryInfo x w')
     (new_SystemInfoProvider\<lparr>pool_shutdown := True\<rparr>) [0, 1, 2]) = [0, 1, 2] \<and>
   posted (foldl (\<lambda>w' x. StartQueryInfo x w')
     (new_SystemInfoProvider\<lparr>pool_shutdown := True\<rparr>) [0, 1, 2]) = 1 \<and>
   in_pool (foldl (\<lambda>w' x. StartQueryInfo x w')
     (new_SystemInfoProvider\<lparr>pool_shutdown := True\<rparr>) [0, 1, 2]) = 0 \<and>
   \<not> (\<exists>p v. (step requests_none)\<^sup>*\<^sup>* (Between,
            foldl (\<lambda>w' x. StartQueryInfo x w')
              (new_SystemInfoProvider\<lparr>pool_shutdown := True\<rparr>) [0, 1, 2]) (p, v) \<and>
          (p \<noteq> Between \<or> invoked v \<noteq> []))"
proof -
  let ?u = "foldl (\<lambda>w' x. StartQueryInfo x w')
    (new_SystemInfoProvider\<lparr>pool_shutdown := True\<rparr>) [0, 1, 2]"
  have u: "is_waiting_for_completion ?u" "in_pool ?u = 0" "pool_shutdown ?u" "invoked ?u = []"
    "requested ?u = [0, 1, 2]" "posted ?u = 1"
    by (simp_all add: evaluate)
  have "reachable requests_none (Between, ?u)"
    using reachable_shutdown by (rule reachable_requests)
  moreover have "p = Between \<and> invoked v = []"
    if "(step requests_none)\<^sup>*\<^sup>* (Between, ?u) (p, v)" for p v
    using dropped_stuck[OF that u(1-3)] u(4) by simp
  ultimately show ?thesis
    using u by blast
qed

text \<open>
  C2, amended.  Delivery at most once, in call order, and exactly once when the cycle
  completes.  At every point of every execution, the callbacks invoked so far, followed
  by the callbacks still owed an invocation (the queue; inside a callback, the queue
  without the running callback), are the callbacks passed to \<^verbatim>\<open>StartQueryInfo\<close> so far,
  in call order: no callback is invoked twice, out of order, or without having been
  passed.  Between tasks, while the pool has not shut down, a non-empty queue has exactly
  one task in the pool, whose reply enters \<^verbatim>\<open>OnQueryCompleted(success)\<close>.  Once that is
  entered, its loop invokes every queued callback, in queue order, with \<open>success\<close>;
  it returns when no queued callback calls the provider; and when it returns, the queue
  is empty and every callback passed so far, those passed during the loop included, has
  been invoked exactly once, in call order, those of this cycle with \<open>success\<close>.  All
  invocations are made by \<^verbatim>\<open>OnQueryCompleted\<close>, which runs on the UI thread.
\<close>

theorem exactly_once_fifo:
  assumes "reachable act (p, w)"
  shows "requested w = map fst (invoked w) @ pending p w \<and>
         (\<forall>success. p = Between \<and> callbacks w \<noteq> [] \<and> \<not> pool_shutdown w \<longrightarrow>
            in_pool w = 1 \<and> reachable act (Entered success, w\<lparr>in_pool := 0\<rparr>)) \<and>
         (\<forall>success. p = Entered success \<longrightarrow>
            (let v = (loop_body act success ^^ length (callbacks w)) w
             in reachable act (LoopHead success, v) \<and>
                invoked v = invoked w @ map (\<lambda>c. (c, success)) (callbacks w))) \<and>
         (\<forall>success. p = Entered success \<and> (\<forall>c\<in>set (callbacks w). act c success = []) \<longrightarrow>
            OnQueryCompleted act success w =
              Some (w\<lparr>callbacks := [], is_waiting_for_completion := False,
                      invoked := invoked w @ map (\<lambda>c. (c, success)) (callbacks w)\<rparr>)) \<and>
         (\<forall>success w'. p = Entered success \<and> OnQueryCompleted act success w = Some w' \<longrightarrow>
            reachable act (Between, w') \<and>
            callbacks w' = [] \<and> map fst (invoked w') = requested w' \<and>
            (\<exists>new. requested w' = requested w @ new \<and>
                   invoked w' = invoked w @ map (\<lambda>c. (c, success)) (callbacks w @ new)))"
proof -
  have fifo: "requested w = map fst (invoked w) @ pending p w"
    using reachable_invariant[OF assms] by simp
  have "reachable act (Between, w') \<and>
        callbacks w' = [] \<and> map fst (invoked w') = requested w' \<and>
        (\<exists>new. requested w' = requested w @ new \<and>
               invoked w' = invoked w @ map (\<lambda>c. (c, success)) (callbacks w @ new))"
    if p: "p = Entered success" and run: "OnQueryCompleted act success w = Some w'"
    for success w'
  proof -
    from run obtain v where v: "drain act success w = Some v"
      and w': "w' = v\<lparr>is_waiting_for_completion := False\<rparr>"
      by (auto simp: OnQueryCompleted_def split: option.splits)
    from v have cyc: "cycle act success w v" and empty: "callbacks v = []"
      by (simp_all add: drain_cycle drain_result_empty)
    from reachable_invariant[OF assms] p have flag: "is_waiting_for_completion w"
      by simp
    from assms p run have "reachable act (Between, w')"
      by (simp add: reachable_OnQueryCompleted)
    moreover from cycle_waiting[OF cyc flag] empty obtain cs new where
      "invoked v = invoked w @ map (\<lambda>c. (c, success)) cs"
      "requested v = requested w @ new" "callbacks w @ new = cs"
      by auto
    ultimately show ?thesis
      using fifo p empty by (auto simp: w' comp_def)
  qed
  moreover have "let v = (loop_body act success ^^ length (callbacks w)) w
        in reachable act (LoopHead success, v) \<and>
           invoked v = invoked w @ map (\<lambda>c. (c, success)) (callbacks w)"
    if p: "p = Entered success" for success
  proof -
    from reachable_invariant[OF assms] p have flag: "is_waiting_for_completion w"
      by simp
    have "callbacks w = callbacks w @ []" by simp
    from passes_invoked[OF flag this, of act success] assms p show ?thesis
      by (simp add: Let_def reachable_cycle)
  qed
  moreover have "in_pool w = 1 \<and> reachable act (Entered success, w\<lparr>in_pool := 0\<rparr>)"
    if p: "p = Between" "callbacks w \<noteq> []" "\<not> pool_shutdown w" for success
  proof -
    from reachable_invariant[OF assms] p have pool: "in_pool w = 1"
      by simp
    then have "step act (Between, w) (Entered success, w\<lparr>in_pool := in_pool w - 1\<rparr>)"
      by (intro step.reply) simp
    with assms p(1) pool show ?thesis
      by (simp add: reachable_step)
  qed
  moreover have "OnQueryCompleted act success w =
      Some (w\<lparr>callbacks := [], is_waiting_for_completion := False,
              invoked := invoked w @ map (\<lambda>c. (c, success)) (callbacks w)\<rparr>)"
    if p: "p = Entered success" "\<forall>c\<in>set (callbacks w). act c success = []" for success
  proof -
    from reachable_invariant[OF assms] p(1) have "is_waiting_for_completion w"
      by simp
    then show ?thesis using p(2) by (rule OnQueryCompleted_plain)
  qed
  ultimately show ?thesis using fifo by blast
qed

theorem exactly_once_fifo_witness:
  "in_pool (StartQueryInfo 0 new_SystemInfoProvider) = 1 \<and>
   reachable requests_two
     (Entered True, (StartQueryInfo 0 new_SystemInfoProvider)\<lparr>in_pool := 0\<rparr>) \<and>
   (\<exists>w'. OnQueryCompleted requests_two True
           ((StartQueryInfo 0 new_SystemInfoProvider)\<lparr>in_pool := 0\<rparr>) = Some w' \<and>
         requested w' = [0, 1, 2] \<and> map fst (invoked w') = [0, 1, 2])"
proof -
  let ?w = "StartQueryInfo 0 new_SystemInfoProvider"
  have r: "reachable requests_two (Between, ?w)"
    by (rule reachable_step[OF reachable_start step.request])
  have "callbacks ?w \<noteq> []" "\<not> pool_shutdown ?w"
    by (simp_all add: evaluate)
  with exactly_once_fifo[OF r] have a: "in_pool ?w = 1"
    "reachable requests_two (Entered True, ?w\<lparr>in_pool := 0\<rparr>)"
    by simp_all
  from exactly_once_fifo[OF a(2)] OnQueryCompleted_requests_two[of True] a
  show ?thesis by simp
qed

text \<open>
  C2 as stated fails: a callback passed to \<^verbatim>\<open>StartQueryInfo\<close> whose task the pool
  accepts, and drops after shutting down, is never invoked in any execution from there.
\<close>

theorem never_invoked_counterexample:
  "reachable requests_none (Between,
     (StartQueryInfo 0 new_SystemInfoProvider)\<lparr>pool_shutdown := True, in_pool := 0\<rparr>) \<and>
   requested
     ((StartQueryInfo 0 new_SystemInfoProvider)\<lparr>pool_shutdown := True, in_pool := 0\<rparr>) = [0] \<and>
   \<not> (\<exists>p v. (step requests_none)\<^sup>*\<^sup>* (Between,
            (StartQueryInfo 0 new_SystemInfoProvider)\<lparr>pool_shutdown := True, in_pool := 0\<rparr>)
            (p, v) \<and>
          invoked v \<noteq> [])"
proof -
  let ?a = "StartQueryInfo 0 new_SystemInfoProvider"
  let ?u = "?a\<lparr>pool_shutdown := True, in_pool := 0\<rparr>"
  have u: "is_waiting_for_completion ?u" "in_pool ?u = 0" "pool_shutdown ?u" "invoked ?u = []"
    "requested ?u = [0]"
    by (simp_all add: evaluate)
  have "reachable requests_none (Between, ?a)"
    by (rule reachable_step[OF reachable_start step.request])
  then have "reachable requests_none (Between, ?a\<lparr>pool_shutdown := True\<rparr>)"
    by (rule reachable_step) (rule step.shutdown)
  moreover have "step requests_none (Between, ?a\<lparr>pool_shutdown := True\<rparr>)
      (Between, ?a\<lparr>pool_shutdown := True\<rparr>\<lparr>in_pool := in_pool (?a\<lparr>pool_shutdown := True\<rparr>) - 1\<rparr>)"
    by (rule step.drop) (simp_all add: evaluate)
  ultimately have "reachable requests_none (Between,
      ?a\<lparr>pool_shutdown := True\<rparr>\<lparr>in_pool := in_pool (?a\<lparr>pool_shutdown := True\<rparr>) - 1\<rparr>)"
    by (rule reachable_step)
  then have "reachable requests_none (Between, ?u)"
    by (simp add: evaluate)
  moreover have "invoked v = []"
    if "(step requests_none)\<^sup>*\<^sup>* (Between, ?u) (p, v)" for p v
    using dropped_stuck[OF that u(1-3)] u(4) by simp
  ultimately show ?thesis
    using u by blast
qed

text \<open>
  C3.  A request made inside the loop.  At the test of the loop of
  \<^verbatim>\<open>OnQueryCompleted(success)\<close> with callback \<open>c\<close> at the front, where \<open>c\<close> calls
  \<^verbatim>\<open>StartQueryInfo(cb2)\<close> when run: \<^verbatim>\<open>is_waiting_for_completion_\<close> is true, so the pass
  for \<open>c\<close> appends \<open>cb2\<close> to the same queue and posts nothing; after the passes for the
  callbacks that were queued and for those \<open>c\<close> requested, the loop is still running
  (the flag is still true), \<open>cb2\<close> has been invoked with the same \<open>success\<close>, and nothing
  has been posted.
\<close>

theorem reentrant_request:
  assumes "reachable act (LoopHead success, w)" and "callbacks w = c # q"
    and "cb2 \<in> set (act c success)"
  shows "let v1 = loop_body act success w;
             v = (loop_body act success ^^ length (c # q @ act c success)) w
         in is_waiting_for_completion w \<and>
            callbacks v1 = q @ act c success \<and> cb2 \<in> set (callbacks v1) \<and>
            posted v1 = posted w \<and> is_waiting_for_completion v1 \<and>
            cycle act success w v \<and> is_waiting_for_completion v \<and>
            posted v = posted w \<and> in_pool v = 0 \<and>
            invoked v = invoked w @ map (\<lambda>x. (x, success)) (c # q @ act c success) \<and>
            (cb2, success) \<in> set (invoked v)"
proof -
  let ?f = "loop_body act success"
  define u where "u = (?f ^^ length (c # q)) w"
  define v where "v = (?f ^^ length (act c success)) u"
  from reachable_invariant[OF assms(1)]
  have flag: "is_waiting_for_completion w" and pool: "in_pool w = 0" by simp_all
  have v1: "?f w = w\<lparr>callbacks := q @ act c success,
      requested := requested w @ act c success, invoked := invoked w @ [(c, success)]\<rparr>"
    using flag assms(2) by (rule loop_body_waiting)
  have "callbacks w = (c # q) @ []" by (simp add: assms(2))
  from passes_invoked[OF flag this, of act success]
  have u: "cycle act success w u" "is_waiting_for_completion u" "posted u = posted w"
    "in_pool u = in_pool w" "invoked u = invoked w @ map (\<lambda>x. (x, success)) (c # q)"
    "callbacks u = act c success @ concat (map (\<lambda>c. act c success) q)"
    unfolding u_def by simp_all
  from passes_invoked[OF u(2) u(6), of act success]
  have v: "cycle act success u v" "is_waiting_for_completion v" "posted v = posted u"
    "in_pool v = in_pool u" "invoked v = invoked u @ map (\<lambda>x. (x, success)) (act c success)"
    unfolding v_def by simp_all
  have "length (c # q @ act c success) = length (act c success) + length (c # q)"
    by simp
  then have "(?f ^^ length (c # q @ act c success)) w = v"
    unfolding v_def u_def by (simp only: funpow_add o_apply)
  moreover have "cycle act success w v"
    using v(1) u(1) by (rule cycle_trans)
  moreover have "invoked v = invoked w @ map (\<lambda>x. (x, success)) (c # q @ act c success)"
    by (simp add: v u)
  moreover from this assms(3) have "(cb2, success) \<in> set (invoked v)"
    by auto
  ultimately show ?thesis
    unfolding Let_def using flag pool v1 u v assms(3) by simp
qed

theorem reentrant_request_witness:
  "callbacks (loop_body requests_two True
      ((StartQueryInfo 0 new_SystemInfoProvider)\<lparr>in_pool := 0\<rparr>)) = [1, 2] \<and>
   invoked ((loop_body requests_two True ^^ length [0, 1, 2 :: nat])
      ((StartQueryInfo 0 new_SystemInfoProvider)\<lparr>in_pool := 0\<rparr>)) =
     [(0, True), (1, True), (2, True)] \<and>
   posted ((loop_body requests_two True ^^ length [0, 1, 2 :: nat])
      ((StartQueryInfo 0 new_SystemInfoProvider)\<lparr>in_pool := 0\<rparr>)) = 1"
proof -
  let ?w = "(StartQueryInfo 0 new_SystemInfoProvider)\<lparr>in_pool := 0\<rparr>"
  have "callbacks ?w = 0 # []" "1 \<in> set (requests_two 0 True)"
    by (simp_all add: evaluate requests_two_def)
  from reentrant_request[of requests_two True ?w 0 "[]" 1, OF reachable_first_loop this]
  show ?thesis
    unfolding Let_def by (simp add: evaluate requests_two_def)
qed

text \<open>
  C4.  One outcome, no retry.  At every test of the loop of one
  \<^verbatim>\<open>OnQueryCompleted(success)\<close>, and when it returns, every invocation made since it was
  entered carries the same \<open>success\<close>, be it true or false; every callback that was
  queued on entry has been invoked when it returns; and nothing has been posted and the
  pool holds no task: a failed query is not dispatched again.  A pass of the loop does
  the same for false as for true: it hands \<open>success\<close> to the callback at the front,
  appends what that callback requests, and removes the callback.
\<close>

theorem uniform_outcome:
  assumes "reachable act (Entered success, w)" and "cycle act success w v"
  shows "is_waiting_for_completion v \<and> posted v = posted w \<and> in_pool v = 0 \<and>
         (\<exists>cs. invoked v = invoked w @ map (\<lambda>c. (c, success)) cs) \<and>
         (\<forall>c q. callbacks v = c # q \<longrightarrow>
            loop_body act success v =
              v\<lparr>callbacks := q @ act c success, requested := requested v @ act c success,
                invoked := invoked v @ [(c, success)]\<rparr>) \<and>
         (\<forall>w'. OnQueryCompleted act success w = Some w' \<longrightarrow>
            posted w' = posted w \<and> in_pool w' = 0 \<and>
            (\<exists>cs. invoked w' = invoked w @ map (\<lambda>c. (c, success)) cs \<and>
                  set (callbacks w) \<subseteq> set cs))"
proof -
  from reachable_invariant[OF assms(1)]
  have flag: "is_waiting_for_completion w" and pool: "in_pool w = 0" by simp_all
  have "posted w' = posted w \<and> in_pool w' = 0 \<and>
        (\<exists>cs. invoked w' = invoked w @ map (\<lambda>c. (c, success)) cs \<and> set (callbacks w) \<subseteq> set cs)"
    if "OnQueryCompleted act success w = Some w'" for w'
  proof -
    from that obtain u where u: "drain act success w = Some u"
      and w': "w' = u\<lparr>is_waiting_for_completion := False\<rparr>"
      by (auto simp: OnQueryCompleted_def split: option.splits)
    from u have "cycle act success w u" "callbacks u = []"
      by (simp_all add: drain_cycle drain_result_empty)
    with cycle_waiting[OF _ flag, of act success u] pool obtain cs new where
      "posted u = posted w" "in_pool u = 0"
      "invoked u = invoked w @ map (\<lambda>c. (c, success)) cs" "callbacks w @ new = cs"
      by auto
    then show ?thesis
      unfolding w' by auto
  qed
  moreover from cycle_waiting[OF assms(2) flag] have "is_waiting_for_completion v"
    by simp
  then have "loop_body act success v =
      v\<lparr>callbacks := q @ act c success, requested := requested v @ act c success,
        invoked := invoked v @ [(c, success)]\<rparr>"
    if "callbacks v = c # q" for c q
    using that by (rule loop_body_waiting)
  ultimately show ?thesis
    using cycle_waiting[OF assms(2) flag] pool by auto
qed

theorem uniform_outcome_witness:
  "invoked (loop_body requests_two False
      ((StartQueryInfo 0 new_SystemInfoProvider)\<lparr>in_pool := 0\<rparr>)) = [(0, False)] \<and>
   posted (loop_body requests_two False
      ((StartQueryInfo 0 new_SystemInfoProvider)\<lparr>in_pool := 0\<rparr>)) = 1 \<and>
   in_pool (loop_body requests_two False
      ((StartQueryInfo 0 new_SystemInfoProvider)\<lparr>in_pool := 0\<rparr>)) = 0 \<and>
   (\<exists>w'. OnQueryCompleted requests_two False
           ((StartQueryInfo 0 new_SystemInfoProvider)\<lparr>in_pool := 0\<rparr>) = Some w' \<and>
         invoked w' = [(0, False), (1, False), (2, False)] \<and> posted w' = 1 \<and> in_pool w' = 0)"
proof -
  let ?w = "(StartQueryInfo 0 new_SystemInfoProvider)\<lparr>in_pool := 0\<rparr>"
  have "callbacks ?w \<noteq> []"
    by (simp add: evaluate)
  then have "cycle requests_two False ?w (loop_body requests_two False ?w)"
    by (intro cycle.pass cycle.start)
  from uniform_outcome[of requests_two False ?w, OF reachable_first_reply this]
  have "invoked (loop_body requests_two False ?w) = [(0, False)] \<and>
      posted (loop_body requests_two False ?w) = 1 \<and>
      in_pool (loop_body requests_two False ?w) = 0"
    by (simp add: evaluate requests_two_def)
  moreover have "\<exists>w'. OnQueryCompleted requests_two False ?w = Some w' \<and>
      invoked w' = [(0, False), (1, False), (2, False)] \<and> posted w' = 1 \<and> in_pool w' = 0"
    unfolding OnQueryCompleted_requests_two by simp
  ultimately show ?thesis by blast
qed

text \<open>
  C5, amended.  When the pool cannot schedule the query task, the provider posts it once,
  discards what the post returns, and stays as it is: in every state of every execution
  from there no method is running, \<^verbatim>\<open>is_waiting_for_completion_\<close> is true, the callback
  is still queued, no callback has been invoked, and later requests are only enqueued.
\<close>

theorem dropped_task_never_completes:
  assumes "reachable act (Between, w)" and "\<not> is_waiting_for_completion w"
    and "pool_shutdown w" and "(step act)\<^sup>*\<^sup>* (Between, StartQueryInfo c w) (p, v)"
  shows "p = Between \<and> is_waiting_for_completion v \<and> c \<in> set (callbacks v) \<and>
         invoked v = invoked w \<and> posted v = posted w + 1 \<and> in_pool v = 0"
proof -
  from reachable_invariant[OF assms(1)] assms(2) have "in_pool w = 0"
    by simp
  with assms(2,3) have "is_waiting_for_completion (StartQueryInfo c w)"
    "in_pool (StartQueryInfo c w) = 0" "pool_shutdown (StartQueryInfo c w)"
    by (simp_all add: StartQueryInfo_idle)
  from dropped_stuck[OF assms(4) this] assms(2) show ?thesis
    by (auto simp: StartQueryInfo_idle)
qed

theorem dropped_task_never_completes_witness:
  "is_waiting_for_completion
     (StartQueryInfo 1 (StartQueryInfo 0 (new_SystemInfoProvider\<lparr>pool_shutdown := True\<rparr>))) \<and>
   callbacks
     (StartQueryInfo 1 (StartQueryInfo 0 (new_SystemInfoProvider\<lparr>pool_shutdown := True\<rparr>))) = [0, 1] \<and>
   invoked
     (StartQueryInfo 1 (StartQueryInfo 0 (new_SystemInfoProvider\<lparr>pool_shutdown := True\<rparr>))) = [] \<and>
   in_pool
     (StartQueryInfo 1 (StartQueryInfo 0 (new_SystemInfoProvider\<lparr>pool_shutdown := True\<rparr>))) = 0"
proof -
  let ?w = "new_SystemInfoProvider\<lparr>pool_shutdown := True\<rparr>"
  have idle: "\<not> is_waiting_for_completion ?w" and down: "pool_shutdown ?w"
    by (simp_all add: new_SystemInfoProvider_def)
  have "(step requests_none)\<^sup>*\<^sup>* (Between, StartQueryInfo 0 ?w)
      (Between, StartQueryInfo 1 (StartQueryInfo 0 ?w))"
    by (rule r_into_rtranclp) (rule step.request)
  from dropped_task_never_completes[OF reachable_shutdown idle down this]
  show ?thesis
    by (simp add: evaluate)
qed

text \<open>
  C5 as stated fails: after a request made when the pool has shut down, no execution
  reaches a state with the flag clear, and none invokes a callback.
\<close>

theorem dropped_task_counterexample:
  "reachable requests_none
     (Between, StartQueryInfo 0 (new_SystemInfoProvider\<lparr>pool_shutdown := True\<rparr>)) \<and>
   pool_shutdown (StartQueryInfo 0 (new_SystemInfoProvider\<lparr>pool_shutdown := True\<rparr>)) \<and>
   callbacks (StartQueryInfo 0 (new_SystemInfoProvider\<lparr>pool_shutdown := True\<rparr>)) = [0] \<and>
   \<not> (\<exists>p v. (step requests_none)\<^sup>*\<^sup>*
            (Between, StartQueryInfo 0 (new_SystemInfoProvider\<lparr>pool_shutdown := True\<rparr>)) (p, v) \<and>
          (\<not> is_waiting_for_completion v \<or> invoked v \<noteq> []))"
proof -
  let ?u = "StartQueryInfo 0 (new_SystemInfoProvider\<lparr>pool_shutdown := True\<rparr>)"
  have u: "is_waiting_for_completion ?u" "in_pool ?u = 0" "pool_shutdown ?u" "invoked ?u = []"
    "callbacks ?u = [0]"
    by (simp_all add: evaluate)
  have "reachable requests_none (Between, ?u)"
    by (rule reachable_step[OF reachable_shutdown step.request])
  moreover have "is_waiting_for_completion v \<and> invoked v = []"
    if "(step requests_none)\<^sup>*\<^sup>* (Between, ?u) (p, v)" for p v
    using dropped_stuck[OF that u(1-3)] u(4) by simp
  ultimately show ?thesis
    using u by blast
qed

text \<open>
  C6.  Queue and flag.  At every point of every execution at which \<^verbatim>\<open>StartQueryInfo\<close>
  or \<^verbatim>\<open>OnQueryCompleted\<close> is entered or left, the queue is non-empty exactly when
  \<^verbatim>\<open>is_waiting_for_completion_\<close> is true; so the queue is empty whenever the flag is
  false.  \<^verbatim>\<open>StartQueryInfo\<close> appends its callback whatever the flag is, and leaves the
  flag true.
\<close>

theorem queue_flag_invariant:
  assumes "reachable act (p, w)" and "quiescent p"
  shows "(callbacks w \<noteq> []) = is_waiting_for_completion w \<and>
         (\<forall>c. callbacks (StartQueryInfo c w) = callbacks w @ [c] \<and>
              is_waiting_for_completion (StartQueryInfo c w))"
proof -
  from reachable_invariant[OF assms(1)] assms(2)
  have "(callbacks w \<noteq> []) = is_waiting_for_completion w"
    by (cases p) auto
  moreover have "is_waiting_for_completion (StartQueryInfo c w)" for c
    by (cases "is_waiting_for_completion w")
      (simp_all add: StartQueryInfo_waiting StartQueryInfo_idle)
  ultimately show ?thesis
    by (simp add: callbacks_StartQueryInfo)
qed

theorem queue_flag_invariant_witness:
  "callbacks (StartQueryInfo 1 (invoke 0 True
      ((StartQueryInfo 0 new_SystemInfoProvider)\<lparr>in_pool := 0\<rparr>))) = [0, 1] \<and>
   is_waiting_for_completion (StartQueryInfo 1 (invoke 0 True
      ((StartQueryInfo 0 new_SystemInfoProvider)\<lparr>in_pool := 0\<rparr>))) \<and>
   ((callbacks (StartQueryInfo 1 (invoke 0 True
      ((StartQueryInfo 0 new_SystemInfoProvider)\<lparr>in_pool := 0\<rparr>))) \<noteq> []) =
    is_waiting_for_completion (StartQueryInfo 1 (invoke 0 True
      ((StartQueryInfo 0 new_SystemInfoProvider)\<lparr>in_pool := 0\<rparr>))))"
proof -
  let ?w = "(StartQueryInfo 0 new_SystemInfoProvider)\<lparr>in_pool := 0\<rparr>"
  have "callbacks ?w = 0 # []"
    by (simp add: evaluate)
  then have "step requests_two (LoopHead True, ?w)
      (InCallback True (requests_two 0 True), invoke 0 True ?w)"
    by (rule step.call)
  then have "reachable requests_two (InCallback True [1, 2], invoke 0 True ?w)"
    using reachable_step[OF reachable_first_loop] by (simp add: requests_two_def)
  then have "reachable requests_two (InCallback True [2], StartQueryInfo 1 (invoke 0 True ?w))"
    by (rule reachable_step) (rule step.reenter)
  from queue_flag_invariant[OF this] show ?thesis
    by (simp add: evaluate)
qed

text \<open>
  C7.  Idle reuse.  When \<^verbatim>\<open>OnQueryCompleted\<close> has returned, the queue is empty and the
  flag is false, and the next \<^verbatim>\<open>StartQueryInfo(c)\<close> sets the flag, prepares and posts
  the query task once more, with \<open>c\<close> alone in the queue.
\<close>

theorem idle_reuse:
  assumes "OnQueryCompleted act success w = Some w'"
  shows "callbacks w' = [] \<and> \<not> is_waiting_for_completion w' \<and>
         (let w2 = StartQueryInfo c w'
          in is_waiting_for_completion w2 \<and> callbacks w2 = [c] \<and>
             prepared w2 = prepared w' + 1 \<and> posted w2 = posted w' + 1 \<and>
             in_pool w2 = (if pool_shutdown w' then in_pool w' else in_pool w' + 1))"
proof -
  from assms obtain v where v: "drain act success w = Some v"
    and w': "w' = v\<lparr>is_waiting_for_completion := False\<rparr>"
    by (auto simp: OnQueryCompleted_def split: option.splits)
  from v have "callbacks v = []" by (rule drain_result_empty)
  then have "callbacks w' = []" "\<not> is_waiting_for_completion w'"
    by (simp_all add: w')
  then show ?thesis
    by (simp add: StartQueryInfo_idle Let_def)
qed

theorem idle_reuse_witness:
  "StartQueryInfo 3
     \<lparr>callbacks = [], is_waiting_for_completion = False, pool_shutdown = False,
      in_pool = 0, posted = 1, prepared = 1, requested = [0, 1, 2],
      invoked = [(0, True), (1, True), (2, True)]\<rparr> =
     \<lparr>callbacks = [3], is_waiting_for_completion = True, pool_shutdown = False,
      in_pool = 1, posted = 2, prepared = 2, requested = [0, 1, 2, 3],
      invoked = [(0, True), (1, True), (2, True)]\<rparr>"
  using idle_reuse[OF OnQueryCompleted_requests_two[of True], where c = 3]
  by (simp add: evaluate)

text \<open>
  C8.  The shared instance.  Nothing is constructed before the first call of
  \<^verbatim>\<open>GetInstance\<close>; \<open>n\<close> calls in a row all return the one instance that the first call
  constructed, and construct once.  After \<^verbatim>\<open>InitializeForTesting(p)\<close> every later call of
  \<^verbatim>\<open>GetInstance\<close> returns \<open>p\<close> and constructs nothing; in particular when \<open>p\<close> is
  installed in the empty registry, before the first production use.
\<close>

theorem GetInstance_singleton:
  "GetInstance_times n empty_registry =
     (replicate n (Constructed 0),
      if n = 0 then empty_registry
      else \<lparr>provider = Some (Constructed 0), constructions = 1\<rparr>) \<and>
   GetInstance_times n (InitializeForTesting p r) = (replicate n p, InitializeForTesting p r) \<and>
   constructions (InitializeForTesting p r) = constructions r"
  proof -
  have "provider (InitializeForTesting p r) = Some p"
    by (simp add: InitializeForTesting_def)
  then have "GetInstance_times n (InitializeForTesting p r) = (replicate n p, InitializeForTesting p r)"
    by (rule GetInstance_times_set)
  moreover have "GetInstance_times n empty_registry =
     (replicate n (Constructed 0),
      if n = 0 then empty_registry
      else \<lparr>provider = Some (Constructed 0), constructions = 1\<rparr>)"
    by (cases n) (simp_all only: GetInstance_times_empty, simp_all)
  ultimately show ?thesis by (simp add: InitializeForTesting_def)
qed

theorem GetInstance_singleton_witness:
  "GetInstance_times 3 empty_registry =
     ([Constructed 0, Constructed 0, Constructed 0],
      \<lparr>provider = Some (Constructed 0), constructions = 1\<rparr>) \<and>
   GetInstance_times 2 (InitializeForTesting (TestDouble 7) empty_registry) =
     ([TestDouble 7, TestDouble 7], \<lparr>provider = Some (TestDouble 7), constructions = 0\<rparr>)"
  using GetInstance_singleton[of 3 "TestDouble 7" empty_registry]
    GetInstance_singleton[of 2 "TestDouble 7" empty_registry]
  by (simp add: numeral_3_eq_3 numeral_2_eq_2 InitializeForTesting_def empty_registry_def)

text \<open>
  C9, amended.  For every path and every behaviour of the database with fewer than
  \<open>2\<^sup>3\<^sup>1\<close> rows that are not \<open>ok\<close>, the test records exactly one outcome out of \<open>ok\<close>,
  \<open>corrupted(n)\<close>, \<open>notFound\<close>, \<open>cannotOpen\<close>, \<open>locked\<close>, \<open>errorHandlerCalled\<close> and
  \<open>pragmaFailed(e)\<close>: a missing file yields \<open>notFound\<close>; a failed open yields
  \<open>cannotOpen\<close>; an error reported to the error callback while opening, preparing or
  stepping yields \<open>errorHandlerCalled\<close>; an invalid statement yields \<open>locked\<close> when the
  error code is \<^verbatim>\<open>SQLITE_BUSY\<close> and \<open>pragmaFailed(e)\<close> for any other error code \<open>e\<close>;
  \<open>n > 0\<close> rows that are not \<open>ok\<close> yield \<open>corrupted(n)\<close>; otherwise \<open>ok\<close>.
\<close>

theorem ExecuteImpl_classifies:
  assumes "bad_rows (database_at env (resolved_path env t)) < 2 ^ 31"
  shows "outcome_of (fst (ExecuteImpl env t)) = Some (CheckIntegrity env t)"
proof -
  define p where "p = resolved_path env t"
  define db where "db = database_at env p"
  define n where "n = length (filter (\<lambda>result. result \<noteq> ''ok'') (Step_rows db))"
  have path: "(if \<not> IsAbsolute env (db_path t)
      then Append env (GetUserDefaultProfileDir env) (db_path t) else db_path t) = p"
    by (simp add: p_def resolved_path_def)
  from assms have n: "n < 2 ^ 31"
    by (simp add: n_def db_def p_def bad_rows_def)
  have count: "count_errors (Step_rows db) 0 = of_nat n"
    by (simp add: count_errors_eq n_def)
  have code: "fst (ExecuteImpl env t) =
    (if \<not> PathExists env p then
       (if critical t then
          RecordOutcome DIAG_SQLITE_FILE_NOT_FOUND [Str ''File not found''] TEST_FAIL_CONTINUE
        else RecordOutcome DIAG_SQLITE_FILE_NOT_FOUND_OK
               [Str ''File not found (but that is OK)''] TEST_OK)
     else if \<not> Open db then
       RecordFailure DIAG_SQLITE_CANNOT_OPEN_DB [Str ''Cannot open DB. Possibly corrupted'']
     else if Open_reports db \<noteq> [] then
       RecordFailure DIAG_SQLITE_ERROR_HANDLER_CALLED
         (FormatError (foldl RecordSqliteError new_ErrorRecorder (Open_reports db)))
     else if GetUniqueStatement_reports db \<noteq> [] then
       RecordFailure DIAG_SQLITE_ERROR_HANDLER_CALLED
         (FormatError (foldl RecordSqliteError new_ErrorRecorder (GetUniqueStatement_reports db)))
     else if \<not> is_valid db then
       (if SQLITE_BUSY env = GetErrorCode db then
          RecordFailure DIAG_SQLITE_DB_LOCKED [Str ''Database locked by another process'']
        else RecordFailure DIAG_SQLITE_PRAGMA_FAILED
               [Str ''Pragma failed. Error: '', Num (GetErrorCode db)])
     else if Step_reports db \<noteq> [] then
       RecordFailure DIAG_SQLITE_ERROR_HANDLER_CALLED
         (FormatError (foldl RecordSqliteError new_ErrorRecorder (Step_reports db)))
     else if n \<noteq> 0 then
       RecordFailure DIAG_SQLITE_DB_CORRUPTED
         [Str ''Database corruption detected: '', Num (int n), Str '' errors'']
     else RecordSuccess [Str ''No corruption detected''])"
    unfolding ExecuteImpl_def Let_def path db_def[symmetric] count
    using n by (simp add: has_error_reports new_ErrorRecorder_def word32_of_nat_zero word32_sint)
  have spec: "CheckIntegrity env t =
    (if \<not> PathExists env p then notFound
     else if \<not> Open db then cannotOpen
     else if Open_reports db \<noteq> [] \<or> GetUniqueStatement_reports db \<noteq> [] then errorHandlerCalled
     else if \<not> is_valid db then
       (if GetErrorCode db = SQLITE_BUSY env then locked else pragmaFailed (GetErrorCode db))
     else if Step_reports db \<noteq> [] then errorHandlerCalled
     else if 0 < n then corrupted (int n)
     else ok)"
    by (simp add: CheckIntegrity_def Let_def p_def db_def n_def bad_rows_def)
  show ?thesis
    unfolding code spec by (simp add: FormatError_def)
qed

theorem ExecuteImpl_classifies_witness:
  "outcome_of (fst (ExecuteImpl (environment_of two_bad_rows) cookies_test)) = Some (corrupted 2)"
proof -
  have "bad_rows (database_at (environment_of two_bad_rows)
      (resolved_path (environment_of two_bad_rows) cookies_test)) < 2 ^ 31"
    by (simp add: environment_of_def two_bad_rows_def bad_rows_def)
  from ExecuteImpl_classifies[OF this] show ?thesis
    by (simp add: CheckIntegrity_def environment_of_def two_bad_rows_def bad_rows_def
        cookies_test_def resolved_path_def)
qed

text \<open>
  C9 as stated fails: when preparing the pragma fails with an error other than
  \<^verbatim>\<open>SQLITE_BUSY\<close>, the test records \<^verbatim>\<open>DIAG_SQLITE_PRAGMA_FAILED\<close>, which is none of the five
  outcomes the interface names, and not \<open>ok\<close>.
\<close>

theorem ExecuteImpl_pragma_failed_counterexample:
  "ExecuteImpl (environment_of pragma_fails) cookies_test =
     (RecordFailure DIAG_SQLITE_PRAGMA_FAILED [Str ''Pragma failed. Error: '', Num 1], False) \<and>
   \<not> (\<exists>out. named_by_interface out \<and>
          outcome_of (fst (ExecuteImpl (environment_of pragma_fails) cookies_test)) = Some out)"
proof -
  have run: "ExecuteImpl (environment_of pragma_fails) cookies_test =
     (RecordFailure DIAG_SQLITE_PRAGMA_FAILED [Str ''Pragma failed. Error: '', Num 1], False)"
    by (simp add: ExecuteImpl_def environment_of_def pragma_fails_def cookies_test_def
        new_ErrorRecorder_def)
  show ?thesis
    unfolding run by auto
qed

text \<open>
  C10, amended.  The loop of \<^verbatim>\<open>OnQueryCompleted\<close> ends for every queue whose callbacks
  are ranked so that each invoked callback requests, during its invocation, only
  callbacks of a smaller rank; that each invocation requests finitely many is not enough.
  In particular the loop ends when no invoked callback calls \<^verbatim>\<open>StartQueryInfo\<close> (every
  rank will do).  When the loop has ended the queue is empty and
  \<^verbatim>\<open>is_waiting_for_completion_\<close> is false.
\<close>

theorem OnQueryCompleted_terminates:
  fixes rank :: "QueryInfoCompletionCallback \<Rightarrow> nat"
  assumes "set (callbacks w) \<subseteq> S"
    and "\<forall>c\<in>S. \<forall>c'\<in>set (act c success). c' \<in> S \<and> rank c' < rank c"
  shows "\<exists>w'. OnQueryCompleted act success w = Some w' \<and> callbacks w' = [] \<and>
              \<not> is_waiting_for_completion w'"
proof -
  from assms(2) have "\<And>c c'. c \<in> S \<Longrightarrow> c' \<in> set (act c success) \<Longrightarrow> c' \<in> S \<and> rank c' < rank c"
    by blast
  from drain_ends[of S act success rank w, OF this assms(1)]
  obtain v where v: "drain act success w = Some v" by blast
  then have "callbacks v = []" by (rule drain_result_empty)
  with v show ?thesis by (simp add: OnQueryCompleted_def)
qed

theorem OnQueryCompleted_terminates_witness:
  "\<exists>w'. OnQueryCompleted requests_two True (StartQueryInfo 0 new_SystemInfoProvider) = Some w' \<and>
         callbacks w' = [] \<and> \<not> is_waiting_for_completion w'"
proof -
  have a: "set (callbacks (StartQueryInfo 0 new_SystemInfoProvider)) \<subseteq> {0, 1, 2}"
    by (simp add: callbacks_StartQueryInfo new_SystemInfoProvider_def)
  have b: "\<forall>c\<in>{0, 1, 2}. \<forall>c'\<in>set (requests_two c True).
      c' \<in> {0, 1, 2} \<and> rank_two c' < rank_two c"
    by (simp add: requests_two_def rank_two_def)
  from OnQueryCompleted_terminates[of "StartQueryInfo 0 new_SystemInfoProvider" "{0, 1, 2}"
      requests_two True rank_two, OF a b]
  show ?thesis .
qed

text \<open>
  C10 as stated fails: a callback that requests itself requests one callback during each
  invocation, and the loop never ends.
\<close>

theorem OnQueryCompleted_diverges_counterexample:
  "(\<forall>c success. length (requests_itself c success) = 1) \<and>
   OnQueryCompleted requests_itself True (StartQueryInfo 0 new_SystemInfoProvider) = None"
proof -
  let ?w = "StartQueryInfo 0 new_SystemInfoProvider"
  have "drain requests_itself True ?w = None"
  proof (cases "drain requests_itself True ?w")
    case None
    then show ?thesis .
  next
    case (Some w')
    have "callbacks ?w \<noteq> []" by (simp add: callbacks_StartQueryInfo)
    moreover have "callbacks (loop_body requests_itself True v) \<noteq> []"
      if "callbacks v \<noteq> []" for v
      using that by (cases "callbacks v") (simp_all add: callbacks_loop_body requests_itself_def)
    ultimately have "callbacks w' \<noteq> [] \<and> callbacks w' = []"
      using drain_rule[OF Some, where P = "\<lambda>v. callbacks v \<noteq> []"] by blast
    then show ?thesis by simp
  qed
  then show ?thesis by (simp add: OnQueryCompleted_def requests_itself_def)
qed

end
